theory Spec2Isabelle
  imports Complex_Main "HOL-Library.Word"
begin

section \<open>Machine types and buffers\<close>

text \<open>
  The sources are \<^verbatim>\<open>tswHist.h\<close> (the pure C core), \<^verbatim>\<open>tswHist_mx.h\<close> (the same routines
  on \<^verbatim>\<open>mwSize\<close>) and the gateways \<^verbatim>\<open>tswHist_mx_c.c\<close>, \<^verbatim>\<open>tswHist_mx.c\<close>.

  \<^item> \<^verbatim>\<open>size_t\<close> and \<^verbatim>\<open>mwSize\<close> are 64-bit unsigned words: \<open>+\<close>, \<open>-\<close>, \<open>*\<close> wrap around.
  \<^item> \<^verbatim>\<open>int\<close> is a 32-bit two's complement word, read with \<open>sint\<close>.
  \<^item> Every buffer of the engine is a \<^verbatim>\<open>double *\<close>. The cells of the binned input, of the
    accumulator, of the histogram matrix, of the window loci and of the offsets only ever
    hold integral values, so such a cell is an \<open>int\<close> (doubles are exact on integers of
    magnitude below \<open>2^53\<close>, which every count and position is in buffers of fewer than
    \<open>2^53\<close> cells).
    A buffer is a function from the cell index to the cell; a pointer \<^verbatim>\<open>&p[k]\<close> is the
    buffer shifted by \<open>k\<close>.
  \<^item> The raw input and the bin edges are buffers of reals, and every arithmetic operation
    of the source on them is followed by the rounding \<open>fl\<close> of its exact result to a double.
\<close>

type_synonym size_t = "64 word"
type_synonym cint = "32 word"
type_synonym dbuf = "nat \<Rightarrow> int"
type_synonym rbuf = "nat \<Rightarrow> real"

subsection \<open>Double arithmetic\<close>

text \<open>
  \<open>rne\<close> rounds a real to the nearest integer, a tie to the even one. \<open>fl\<close> rounds a real
  to the nearest number with a significand of 53 bits, a tie to the even significand: for
  \<open>2^e \<le> |x| < 2^(e+1)\<close> the spacing of such numbers is \<open>2^(e-52)\<close>. This is the rounding of
  IEEE 754 binary64 in its default mode; the exponent range is not modelled (no overflow to
  infinity, no loss of precision below \<open>2^(-1022)\<close>), and there is no NaN among the reals.
\<close>

definition rne :: "real \<Rightarrow> int" where
  "rne x = (let f = \<lfloor>x\<rfloor>; d = x - of_int f
            in if d < 1 / 2 then f else if 1 / 2 < d then f + 1
               else if even f then f else f + 1)"

definition fl :: "real \<Rightarrow> real" where
  "fl x = (if x = 0 then 0
           else let e = \<lfloor>log 2 \<bar>x\<bar>\<rfloor>; u = 2 powr (of_int (e - 52))
                in sgn x * (u * of_int (rne (\<bar>x\<bar> / u))))"

subsection \<open>Conversions\<close>

text \<open>
  The conversions the source writes as casts. C leaves the conversion to \<^verbatim>\<open>int\<close> of a double
  outside the range of \<^verbatim>\<open>int\<close> undefined: what it yields is the parameter \<open>oor\<close> of the model
  (on x86-64 it is \<^verbatim>\<open>INT_MIN\<close>), and every theorem holds whatever it yields.
\<close>

definition double_of_size :: "size_t \<Rightarrow> int" where
  \<comment> \<open>\<^verbatim>\<open>(double)x\<close> for an unsigned \<open>x\<close>\<close>
  "double_of_size x = uint x"

definition size_of_double :: "int \<Rightarrow> size_t" where
  \<comment> \<open>\<^verbatim>\<open>(size_t)d\<close>: the value itself when it is in range; a negative value is converted
      modulo \<open>2^64\<close>, which is what the sliding loop relies on for its negative offsets\<close>
  "size_of_double d = word_of_int d"

definition int_of_double :: "(int \<Rightarrow> cint) \<Rightarrow> int \<Rightarrow> cint" where
  \<comment> \<open>\<^verbatim>\<open>(int)d\<close> for an integral \<open>d\<close>: the value itself when it is in the range of \<^verbatim>\<open>int\<close>\<close>
  "int_of_double oor d =
     (if - 2147483648 \<le> d \<and> d < 2147483648 then word_of_int d else oor d)"

definition double_of_int :: "cint \<Rightarrow> int" where
  \<comment> \<open>\<^verbatim>\<open>(double)bin\<close>\<close>
  "double_of_int b = sint b"

definition int_of_size :: "size_t \<Rightarrow> cint" where
  \<comment> \<open>\<^verbatim>\<open>(int)n_bins\<close>, and the assignment of a \<^verbatim>\<open>size_t\<close> to an \<^verbatim>\<open>int\<close>: the low 32 bits\<close>
  "int_of_size n = ucast n"

definition shift :: "(nat \<Rightarrow> 'a) \<Rightarrow> nat \<Rightarrow> (nat \<Rightarrow> 'a)" where
  \<comment> \<open>the pointer \<^verbatim>\<open>&p[k]\<close>\<close>
  "shift p k = (\<lambda>i. p (k + i))"

section \<open>The accumulator: pushHist and popHist (tswHist.h)\<close>

text \<open>
  \<^verbatim>\<open>pushHist\<close> tests \<^verbatim>\<open>bin >= 0 && bin < n_bins\<close>, comparing the \<^verbatim>\<open>int\<close> with the
  \<^verbatim>\<open>size_t\<close> (the \<^verbatim>\<open>int\<close> is converted to \<^verbatim>\<open>size_t\<close>); \<^verbatim>\<open>popHist\<close> tests
  \<^verbatim>\<open>bin >= 0 && bin < (int)n_bins\<close>, comparing two \<^verbatim>\<open>int\<close>s.
\<close>

definition in_range_size :: "cint \<Rightarrow> size_t \<Rightarrow> bool" where
  "in_range_size bin n_bins \<longleftrightarrow> 0 \<le> sint bin \<and> (scast bin :: size_t) < n_bins"

definition in_range_int :: "cint \<Rightarrow> size_t \<Rightarrow> bool" where
  "in_range_int bin n_bins \<longleftrightarrow> 0 \<le> sint bin \<and> sint bin < sint (int_of_size n_bins)"

definition push_step :: "(int \<Rightarrow> cint) \<Rightarrow> dbuf \<Rightarrow> size_t \<Rightarrow> nat \<Rightarrow> dbuf \<Rightarrow> dbuf" where
  \<comment> \<open>the body of the loop of \<^verbatim>\<open>pushHist\<close>:
      \<^verbatim>\<open>int bin = (int)input_int[i]; if (bin >= 0 && bin < n_bins) hist_vec[bin] += 1;\<close>\<close>
  "push_step oor inp n_bins i hist_vec =
     (let bin = int_of_double oor (inp i)
      in if in_range_size bin n_bins
         then hist_vec(nat (sint bin) := hist_vec (nat (sint bin)) + 1)
         else hist_vec)"

definition pop_step :: "(int \<Rightarrow> cint) \<Rightarrow> dbuf \<Rightarrow> size_t \<Rightarrow> nat \<Rightarrow> dbuf \<Rightarrow> dbuf" where
  \<comment> \<open>the body of the loop of \<^verbatim>\<open>popHist\<close>:
      \<^verbatim>\<open>int bin = (int)input_int[i]; if (bin >= 0 && bin < (int)n_bins) hist_vec[bin] -= 1;\<close>\<close>
  "pop_step oor inp n_bins i hist_vec =
     (let bin = int_of_double oor (inp i)
      in if in_range_int bin n_bins
         then hist_vec(nat (sint bin) := hist_vec (nat (sint bin)) - 1)
         else hist_vec)"

definition pushHist :: "(int \<Rightarrow> cint) \<Rightarrow> dbuf \<Rightarrow> dbuf \<Rightarrow> size_t \<Rightarrow> size_t \<Rightarrow> dbuf" where
  "pushHist oor hist_vec inp len n_bins =
     fold (push_step oor inp n_bins) [0..<unat len] hist_vec"

definition popHist :: "(int \<Rightarrow> cint) \<Rightarrow> dbuf \<Rightarrow> dbuf \<Rightarrow> size_t \<Rightarrow> size_t \<Rightarrow> dbuf" where
  "popHist oor hist_vec inp len n_bins =
     fold (pop_step oor inp n_bins) [0..<unat len] hist_vec"

section \<open>The sliding loop: tswHistSlidingWindow (tswHist.h)\<close>

text \<open>
  \<^verbatim>\<open>tswHist.h\<close> and \<^verbatim>\<open>tswHist_mx.h\<close> hold the same loop, on their own \<^verbatim>\<open>pushHist\<close>; the
  loop is written once, over the \<^verbatim>\<open>pushHist\<close> it calls.

  The five buffers the loop is given. The loop writes through \<^verbatim>\<open>histMat\<close> and
  \<^verbatim>\<open>bufferHist\<close>; the other three are \<^verbatim>\<open>const double *\<close>.
\<close>

record bufs =
  histMat :: dbuf
  bufferHist :: dbuf
  input_int :: dbuf
  strided_windows_loci :: dbuf
  offsets :: dbuf

definition base_pop :: "dbuf \<Rightarrow> nat \<Rightarrow> size_t" where
  \<comment> \<open>\<^verbatim>\<open>(size_t)strided_windows_loci[w] - 2\<close>\<close>
  "base_pop loci w = size_of_double (loci w) - 2"

definition base_push :: "dbuf \<Rightarrow> size_t \<Rightarrow> nat \<Rightarrow> size_t" where
  \<comment> \<open>\<^verbatim>\<open>(size_t)strided_windows_loci[w] + win_len - 2\<close>\<close>
  "base_push loci win_len w = size_of_double (loci w) + win_len - 2"

definition pop_idx :: "dbuf \<Rightarrow> dbuf \<Rightarrow> nat \<Rightarrow> nat \<Rightarrow> size_t" where
  \<comment> \<open>\<^verbatim>\<open>idx = base_pop + (size_t)offsets[j]\<close>\<close>
  "pop_idx loci offs w j = base_pop loci w + size_of_double (offs j)"

definition push_idx :: "dbuf \<Rightarrow> dbuf \<Rightarrow> size_t \<Rightarrow> nat \<Rightarrow> nat \<Rightarrow> size_t" where
  \<comment> \<open>\<^verbatim>\<open>idx = base_push + (size_t)offsets[j]\<close>\<close>
  "push_idx loci offs win_len w j = base_push loci win_len w + size_of_double (offs j)"

definition pop_one :: "(int \<Rightarrow> cint) \<Rightarrow> size_t \<Rightarrow> size_t \<Rightarrow> nat \<Rightarrow> nat \<Rightarrow> bufs \<Rightarrow> bufs" where
  \<comment> \<open>the body of the first inner loop:
      \<^verbatim>\<open>if (idx < input_len) popHist(bufferHist, &input_int[idx], 1, n_bins);\<close>\<close>
  "pop_one oor n_bins input_len w j s =
     (let idx = pop_idx (strided_windows_loci s) (offsets s) w j
      in if idx < input_len
         then s\<lparr>bufferHist :=
                  popHist oor (bufferHist s) (shift (input_int s) (unat idx)) 1 n_bins\<rparr>
         else s)"

definition push_one ::
  "(dbuf \<Rightarrow> dbuf \<Rightarrow> size_t \<Rightarrow> size_t \<Rightarrow> dbuf) \<Rightarrow> size_t \<Rightarrow> size_t \<Rightarrow> size_t \<Rightarrow> nat \<Rightarrow> nat \<Rightarrow> bufs \<Rightarrow> bufs" where
  \<comment> \<open>the body of the second inner loop:
      \<^verbatim>\<open>if (idx < input_len) pushHist(bufferHist, &input_int[idx], 1, n_bins);\<close>\<close>
  "push_one push win_len n_bins input_len w j s =
     (let idx = push_idx (strided_windows_loci s) (offsets s) win_len w j
      in if idx < input_len
         then s\<lparr>bufferHist := push (bufferHist s) (shift (input_int s) (unat idx)) 1 n_bins\<rparr>
         else s)"

definition store_one :: "size_t \<Rightarrow> nat \<Rightarrow> nat \<Rightarrow> bufs \<Rightarrow> bufs" where
  \<comment> \<open>\<^verbatim>\<open>histMat[b + w * n_bins] = bufferHist[b]\<close>, the index computed in \<^verbatim>\<open>size_t\<close>\<close>
  "store_one n_bins w b s =
     s\<lparr>histMat := (histMat s)(unat (of_nat b + of_nat w * n_bins :: size_t) := bufferHist s b)\<rparr>"

definition window_step ::
  "(int \<Rightarrow> cint) \<Rightarrow> (dbuf \<Rightarrow> dbuf \<Rightarrow> size_t \<Rightarrow> size_t \<Rightarrow> dbuf) \<Rightarrow> size_t \<Rightarrow> size_t \<Rightarrow> size_t \<Rightarrow> size_t \<Rightarrow> nat \<Rightarrow> bufs \<Rightarrow> bufs" where
  \<comment> \<open>the body of the loop over the windows: the pops, the pushes, the copy into column \<open>w\<close>\<close>
  "window_step oor push win_len n_bins stride input_len w s =
     fold (store_one n_bins w) [0..<unat n_bins]
       (fold (push_one push win_len n_bins input_len w) [0..<unat stride]
         (fold (pop_one oor n_bins input_len w) [0..<unat stride] s))"

definition sliding_loop ::
  "(int \<Rightarrow> cint) \<Rightarrow> (dbuf \<Rightarrow> dbuf \<Rightarrow> size_t \<Rightarrow> size_t \<Rightarrow> dbuf) \<Rightarrow> bufs \<Rightarrow> size_t \<Rightarrow> size_t \<Rightarrow> size_t \<Rightarrow> size_t \<Rightarrow> size_t \<Rightarrow> bufs" where
  \<comment> \<open>\<^verbatim>\<open>for (size_t w = 1; w < num_windows; ++w)\<close>\<close>
  "sliding_loop oor push s num_windows win_len n_bins stride input_len =
     fold (window_step oor push win_len n_bins stride input_len) [1..<unat num_windows] s"

definition tswHistSlidingWindow ::
  "(int \<Rightarrow> cint) \<Rightarrow> bufs \<Rightarrow> size_t \<Rightarrow> size_t \<Rightarrow> size_t \<Rightarrow> size_t \<Rightarrow> size_t \<Rightarrow> bufs" where
  "tswHistSlidingWindow oor = sliding_loop oor (pushHist oor)"

section \<open>The engine: tswHist (tswHist.h)\<close>

definition num_windows_of :: "size_t \<Rightarrow> size_t \<Rightarrow> size_t \<Rightarrow> size_t" where
  \<comment> \<open>\<^verbatim>\<open>(input_len - win_len) / stride + 1\<close>, in \<^verbatim>\<open>size_t\<close>\<close>
  "num_windows_of input_len win_len stride = (input_len - win_len) div stride + 1"

definition fill_loci :: "size_t \<Rightarrow> size_t \<Rightarrow> dbuf \<Rightarrow> dbuf" where
  \<comment> \<open>\<^verbatim>\<open>strided_windows_loci[i] = (double)(i * stride + 1)\<close>, the 1-based window starts\<close>
  "fill_loci num_windows stride loci =
     fold (\<lambda>i l. l(i := double_of_size (of_nat i * stride + 1))) [0..<unat num_windows] loci"

definition fill_edges :: "size_t \<Rightarrow> rbuf \<Rightarrow> rbuf" where
  \<comment> \<open>\<^verbatim>\<open>edges[i] = 1.0 * ((double)i / n_bins)\<close> for \<^verbatim>\<open>i <= n_bins\<close>: \<open>n_bins + 1\<close>
      cells (with \<open>n_bins = 2^64 - 1\<close> the test \<^verbatim>\<open>i <= n_bins\<close> never fails and the source's loop
      does not end; no buffer of that length exists, and no claim reaches it)\<close>
  "fill_edges n_bins edges =
     fold (\<lambda>i e. e(i := fl (1 * fl (fl (real i) / fl (real (unat n_bins))))))
          [0..<Suc (unat n_bins)] edges"

definition dprod :: "real \<Rightarrow> size_t \<Rightarrow> real" where
  \<comment> \<open>the double product \<^verbatim>\<open>input_norm[i] * n_bins\<close>, \<^verbatim>\<open>n_bins\<close> converted to a double\<close>
  "dprod v n_bins = fl (v * fl (real (unat n_bins)))"

definition patch_max :: "cint \<Rightarrow> size_t \<Rightarrow> cint" where
  \<comment> \<open>\<^verbatim>\<open>if (bin == (int)n_bins) bin = n_bins - 1;\<close>\<close>
  "patch_max bin n_bins = (if bin = int_of_size n_bins then int_of_size (n_bins - 1) else bin)"

definition bin_of :: "(int \<Rightarrow> cint) \<Rightarrow> real \<Rightarrow> size_t \<Rightarrow> cint" where
  \<comment> \<open>\<^verbatim>\<open>int bin = (int)floor(v * n_bins);\<close> followed by the patch for the maximum\<close>
  "bin_of oor v n_bins = patch_max (int_of_double oor \<lfloor>dprod v n_bins\<rfloor>) n_bins"

definition fill_bins :: "(int \<Rightarrow> cint) \<Rightarrow> rbuf \<Rightarrow> size_t \<Rightarrow> size_t \<Rightarrow> dbuf \<Rightarrow> dbuf" where
  \<comment> \<open>\<^verbatim>\<open>input_int[i] = (double)bin\<close> for every \<^verbatim>\<open>i < input_len\<close>\<close>
  "fill_bins oor input_norm input_len n_bins inp =
     fold (\<lambda>i b. b(i := double_of_int (bin_of oor (input_norm i) n_bins)))
          [0..<unat input_len] inp"

definition copy_first :: "size_t \<Rightarrow> dbuf \<Rightarrow> dbuf \<Rightarrow> dbuf" where
  \<comment> \<open>\<^verbatim>\<open>for (b = 0; b < n_bins; ++b) histMat[b] = bufferHist[b];\<close>\<close>
  "copy_first n_bins buffer hm = fold (\<lambda>b h. h(b := buffer b)) [0..<unat n_bins] hm"

definition fill_offsets :: "size_t \<Rightarrow> dbuf \<Rightarrow> dbuf" where
  \<comment> \<open>\<^verbatim>\<open>offsets[i] = -(double)(stride - 1 - i)\<close>\<close>
  "fill_offsets stride offs =
     fold (\<lambda>i f. f(i := - double_of_size (stride - 1 - of_nat i))) [0..<unat stride] offs"

definition zeros :: dbuf where
  \<comment> \<open>a buffer from \<^verbatim>\<open>calloc\<close>\<close>
  "zeros = (\<lambda>_. 0)"

record outputs =
  out_histMat :: dbuf
  out_loci :: dbuf
  out_edges :: rbuf

text \<open>
  \<^verbatim>\<open>tswHist\<close> fills the three buffers of its caller; the model takes their contents at
  the call and returns them filled. It is what the function computes when its three
  \<^verbatim>\<open>calloc\<close>s succeed and every read is inside its buffer, that is, when
  \<open>win_len \<le> input_len\<close>; the gateways below say what happens otherwise.
\<close>

definition tswHist ::
  "(int \<Rightarrow> cint) \<Rightarrow> rbuf \<Rightarrow> size_t \<Rightarrow> size_t \<Rightarrow> size_t \<Rightarrow> size_t \<Rightarrow> dbuf \<Rightarrow> dbuf \<Rightarrow> rbuf \<Rightarrow> outputs" where
  "tswHist oor input_norm input_len n_bins win_len stride hm0 loci0 edges0 =
     (let num_windows = num_windows_of input_len win_len stride;
          loci = fill_loci num_windows stride loci0;
          edges = fill_edges n_bins edges0;
          inp = fill_bins oor input_norm input_len n_bins zeros;
          buffer = pushHist oor zeros inp win_len n_bins;
          hm = copy_first n_bins buffer hm0;
          offs = fill_offsets stride zeros;
          s = tswHistSlidingWindow oor
                \<lparr>histMat = hm, bufferHist = buffer, input_int = inp,
                 strided_windows_loci = loci, offsets = offs\<rparr>
                num_windows win_len n_bins stride input_len
      in \<lparr>out_histMat = histMat s, out_loci = loci, out_edges = edges\<rparr>)"
section \<open>The platform of the gateways\<close>

text \<open>
  What the gateways depend on beyond their arguments: the \<^verbatim>\<open>int\<close> that the conversion of an
  out-of-range double yields, the \<^verbatim>\<open>int\<close> that the conversion of a NaN yields (both undefined
  in C), and the largest array of doubles the allocator grants. Whatever that is, an array
  of \<open>2^61\<close> cells or more does not fit the address space.
\<close>

record platform =
  oor_int :: "int \<Rightarrow> cint"
  nan_int :: cint
  max_cells :: nat

definition can_alloc :: "platform \<Rightarrow> nat \<Rightarrow> bool" where
  \<comment> \<open>an array of \<open>cells\<close> doubles is granted\<close>
  "can_alloc P cells \<longleftrightarrow> cells \<le> max_cells P \<and> cells < 2 ^ 61"

definition malloc_ok :: "platform \<Rightarrow> size_t \<Rightarrow> bool" where
  \<comment> \<open>\<^verbatim>\<open>mxMalloc(count * sizeof(double))\<close> is granted: the byte count is computed in
      \<^verbatim>\<open>mwSize\<close> and wraps around from \<open>count = 2^61\<close> on\<close>
  "malloc_ok P count \<longleftrightarrow> unat (count * 8) \<le> 8 * max_cells P"

section \<open>The gateway on the pure C core: mexFunction (tswHist_mx_c.c)\<close>

text \<open>
  What the gateway reads from its arguments: the number of right-hand sides, whether the
  first one is a real double array (\<^verbatim>\<open>mxIsDouble\<close> and not \<^verbatim>\<open>mxIsComplex\<close>), its cells and
  its number of elements, and the three scalars after their conversion to \<^verbatim>\<open>mwSize\<close>.
  A negative scalar has no conversion to \<^verbatim>\<open>mwSize\<close> in C; the model starts from the
  \<^verbatim>\<open>mwSize\<close> values that the gateway compares. They come from doubles: the calls of the
  examples below use only values that a double represents exactly.

  How a call ends other than by returning its outputs:
  \<^item> \<^verbatim>\<open>mexErrMsgIdAndTxt\<close> does not return: the call ends there with the error of the check;
  \<^item> with a zero stride that passes the checks the division traps;
  \<^item> \<^verbatim>\<open>mxCreateDoubleMatrix\<close>, \<^verbatim>\<open>mxMalloc\<close> and \<^verbatim>\<open>mxCalloc\<close> end the call with an
    out-of-memory error when the allocation is not granted;
  \<^item> a \<^verbatim>\<open>calloc\<close> of \<^verbatim>\<open>tswHist\<close> that is not granted returns a null pointer, which the source
    does not test and writes through; and with \<open>input_len < win_len\<close> the first
    \<^verbatim>\<open>pushHist\<close> reads \<^verbatim>\<open>input_int\<close> past its \<open>input_len\<close> cells (so does \<^verbatim>\<open>input[0]\<close> on an
    empty input): the behaviour is undefined.
\<close>

record mex_args =
  arg_nrhs :: int
  arg_is_real :: bool
  arg_input :: rbuf
  arg_input_len :: size_t
  arg_n_bins :: size_t
  arg_win_len :: size_t
  arg_stride :: size_t

datatype mex_error =
  InvalidNumInputs | InputNotReal | BadBins | StrideWin | DivisionTrap | OutOfMemory | Undefined

definition stride_of :: "mex_args \<Rightarrow> size_t" where
  \<comment> \<open>\<^verbatim>\<open>(nrhs >= 4) ? (mwSize)mxGetScalar(prhs[3]) : 1\<close>\<close>
  "stride_of a = (if arg_nrhs a \<ge> 4 then arg_stride a else 1)"

definition mex_checks :: "mex_args \<Rightarrow> mex_error option" where
  \<comment> \<open>the checks of both gateways, in the order of the source\<close>
  "mex_checks a =
     (if arg_nrhs a < 3 \<or> arg_nrhs a > 4 then Some InvalidNumInputs
      else if \<not> arg_is_real a then Some InputNotReal
      else if arg_n_bins a \<le> 2 then Some BadBins
      else if stride_of a \<ge> arg_win_len a then Some StrideWin
      else if stride_of a = 0 then Some DivisionTrap
      else None)"

definition num_windows_arg :: "mex_args \<Rightarrow> size_t" where
  \<comment> \<open>\<^verbatim>\<open>mwSize num_windows = (input_len - win_len) / stride + 1;\<close>\<close>
  "num_windows_arg a = num_windows_of (arg_input_len a) (arg_win_len a) (stride_of a)"

definition granted :: "platform \<Rightarrow> mex_args \<Rightarrow> bool" where
  \<comment> \<open>every allocation of the call is granted: the three outputs, the binned input, the
      accumulator and the offsets\<close>
  "granted P a \<longleftrightarrow>
     can_alloc P (unat (arg_n_bins a) * unat (num_windows_arg a))
     \<and> can_alloc P (unat (num_windows_arg a))
     \<and> can_alloc P (unat (arg_n_bins a + 1))
     \<and> can_alloc P (unat (arg_input_len a))
     \<and> can_alloc P (unat (arg_n_bins a))
     \<and> can_alloc P (unat (stride_of a))"

definition rzeros :: rbuf where
  "rzeros = (\<lambda>_. 0)"

definition mexFunction_c :: "platform \<Rightarrow> mex_args \<Rightarrow> mex_error + outputs" where
  \<comment> \<open>after the checks: the three outputs from \<^verbatim>\<open>mxCreateDoubleMatrix\<close> (zeroed), then
      \<^verbatim>\<open>tswHist\<close> with its three \<^verbatim>\<open>calloc\<close>s and its reads of \<^verbatim>\<open>input_int\<close>\<close>
  "mexFunction_c P a =
     (case mex_checks a of
        Some e \<Rightarrow> Inl e
      | None \<Rightarrow>
          if \<not> (can_alloc P (unat (arg_n_bins a) * unat (num_windows_arg a))
                \<and> can_alloc P (unat (num_windows_arg a))
                \<and> can_alloc P (unat (arg_n_bins a + 1)))
          then Inl OutOfMemory
          else if \<not> (can_alloc P (unat (arg_input_len a)) \<and> can_alloc P (unat (arg_n_bins a))
                      \<and> can_alloc P (unat (stride_of a)))
          then Inl Undefined
          else if arg_input_len a < arg_win_len a then Inl Undefined
          else Inr (tswHist (oor_int P) (arg_input a) (arg_input_len a) (arg_n_bins a)
                      (arg_win_len a) (stride_of a) zeros zeros rzeros))"

section \<open>The range-normalising gateway: mexFunction (tswHist_mx.c, tswHist_mx.h)\<close>

text \<open>
  \<^verbatim>\<open>tswHist_mx.h\<close> repeats \<^verbatim>\<open>popHist\<close> and the sliding loop of \<^verbatim>\<open>tswHist.h\<close> on \<^verbatim>\<open>mwSize\<close>;
  its \<^verbatim>\<open>pushHist\<close> tests \<^verbatim>\<open>bin < (int)n_bins\<close>.
\<close>

definition push_step_mx :: "(int \<Rightarrow> cint) \<Rightarrow> dbuf \<Rightarrow> size_t \<Rightarrow> nat \<Rightarrow> dbuf \<Rightarrow> dbuf" where
  "push_step_mx oor inp n_bins i hist_vec =
     (let bin = int_of_double oor (inp i)
      in if in_range_int bin n_bins
         then hist_vec(nat (sint bin) := hist_vec (nat (sint bin)) + 1)
         else hist_vec)"

definition pushHist_mx :: "(int \<Rightarrow> cint) \<Rightarrow> dbuf \<Rightarrow> dbuf \<Rightarrow> size_t \<Rightarrow> size_t \<Rightarrow> dbuf" where
  "pushHist_mx oor hist_vec inp len n_bins =
     fold (push_step_mx oor inp n_bins) [0..<unat len] hist_vec"

definition tswHistSlidingWindow_mx ::
  "(int \<Rightarrow> cint) \<Rightarrow> bufs \<Rightarrow> size_t \<Rightarrow> size_t \<Rightarrow> size_t \<Rightarrow> size_t \<Rightarrow> size_t \<Rightarrow> bufs" where
  "tswHistSlidingWindow_mx oor = sliding_loop oor (pushHist_mx oor)"

definition fill_loci_mx :: "size_t \<Rightarrow> size_t \<Rightarrow> dbuf \<Rightarrow> dbuf" where
  \<comment> \<open>\<^verbatim>\<open>strided_windows_loci[i] = 1 + i * stride\<close>\<close>
  "fill_loci_mx num_windows stride loci =
     fold (\<lambda>i l. l(i := double_of_size (1 + of_nat i * stride))) [0..<unat num_windows] loci"

definition min_max_step :: "rbuf \<Rightarrow> nat \<Rightarrow> real \<times> real \<Rightarrow> real \<times> real" where
  \<comment> \<open>\<^verbatim>\<open>if (input[i] < min_val) min_val = input[i]; if (input[i] > max_val) max_val = input[i];\<close>\<close>
  "min_max_step input i =
     (\<lambda>(min_val, max_val).
        let min_val = (if input i < min_val then input i else min_val);
            max_val = (if input i > max_val then input i else max_val)
        in (min_val, max_val))"

definition min_max :: "rbuf \<Rightarrow> size_t \<Rightarrow> real \<times> real" where
  \<comment> \<open>\<^verbatim>\<open>min_val = input[0], max_val = input[0]\<close>, then the loop from 1\<close>
  "min_max input input_len =
     fold (min_max_step input) [1..<unat input_len] (input 0, input 0)"

definition fill_edges_mx :: "real \<Rightarrow> real \<Rightarrow> size_t \<Rightarrow> rbuf \<Rightarrow> rbuf" where
  \<comment> \<open>\<^verbatim>\<open>edges[i] = min_val + (max_val - min_val) * ((double)i / n_bins)\<close>\<close>
  "fill_edges_mx min_val max_val n_bins edges =
     fold (\<lambda>i e. e(i := fl (min_val + fl (fl (max_val - min_val)
                               * fl (fl (real i) / fl (real (unat n_bins)))))))
          [0..<Suc (unat n_bins)] edges"

text \<open>
  \<^verbatim>\<open>norm = (input[i] - min_val) / (max_val - min_val)\<close>. When \<open>max_val = min_val\<close> the
  divisor is zero and \<^verbatim>\<open>norm\<close> is not a number; C leaves its conversion to \<^verbatim>\<open>int\<close>
  undefined, and the platform says what it yields.
\<close>

definition bin_of_mx :: "platform \<Rightarrow> real \<Rightarrow> real \<Rightarrow> real \<Rightarrow> size_t \<Rightarrow> cint" where
  "bin_of_mx P min_val max_val v n_bins =
     (if max_val = min_val then patch_max (nan_int P) n_bins
      else bin_of (oor_int P) (fl (fl (v - min_val) / fl (max_val - min_val))) n_bins)"

definition fill_bins_mx ::
  "platform \<Rightarrow> real \<Rightarrow> real \<Rightarrow> rbuf \<Rightarrow> size_t \<Rightarrow> size_t \<Rightarrow> dbuf \<Rightarrow> dbuf" where
  "fill_bins_mx P min_val max_val input input_len n_bins inp =
     fold (\<lambda>i b. b(i := double_of_int (bin_of_mx P min_val max_val (input i) n_bins)))
          [0..<unat input_len] inp"

text \<open>
  \<^verbatim>\<open>input_int\<close> and \<^verbatim>\<open>offsets\<close> come from \<^verbatim>\<open>mxMalloc\<close>, which does not clear them: \<open>junk\<close>
  is what they hold before they are filled. \<open>mx_outputs\<close> is what the gateway computes when
  nothing stops it; \<open>mexFunction_mx\<close> puts the ways it can stop in the order of the source.
\<close>

definition mx_outputs :: "platform \<Rightarrow> dbuf \<Rightarrow> mex_args \<Rightarrow> outputs" where
  "mx_outputs P junk a =
     (let input = arg_input a; input_len = arg_input_len a; n_bins = arg_n_bins a;
          win_len = arg_win_len a; stride = stride_of a;
          num_windows = num_windows_arg a;
          loci = fill_loci_mx num_windows stride zeros;
          (min_val, max_val) = min_max input input_len;
          edges = fill_edges_mx min_val max_val n_bins rzeros;
          inp = fill_bins_mx P min_val max_val input input_len n_bins junk;
          buffer = pushHist_mx (oor_int P) zeros inp win_len n_bins;
          hm = copy_first n_bins buffer zeros;
          offs = fill_offsets stride junk;
          s = tswHistSlidingWindow_mx (oor_int P)
                \<lparr>histMat = hm, bufferHist = buffer, input_int = inp,
                 strided_windows_loci = loci, offsets = offs\<rparr>
                num_windows win_len n_bins stride input_len
      in \<lparr>out_histMat = histMat s, out_loci = loci, out_edges = edges\<rparr>)"

definition mexFunction_mx :: "platform \<Rightarrow> dbuf \<Rightarrow> mex_args \<Rightarrow> mex_error + outputs" where
  "mexFunction_mx P junk a =
     (case mex_checks a of
        Some e \<Rightarrow> Inl e
      | None \<Rightarrow>
          \<comment> \<open>\<^verbatim>\<open>plhs[1]\<close>\<close>
          if \<not> can_alloc P (unat (num_windows_arg a)) then Inl OutOfMemory
          \<comment> \<open>\<^verbatim>\<open>input[0]\<close>\<close>
          else if arg_input_len a = 0 then Inl Undefined
          \<comment> \<open>\<^verbatim>\<open>plhs[2]\<close> of \<^verbatim>\<open>n_bins + 1\<close> cells, and the loop \<^verbatim>\<open>i <= n_bins\<close> that fills it\<close>
          else if \<not> can_alloc P (unat (arg_n_bins a + 1)) then Inl OutOfMemory
          else if arg_n_bins a + 1 = 0 then Inl Undefined
          \<comment> \<open>\<^verbatim>\<open>input_int\<close> and the loop that fills its \<^verbatim>\<open>input_len\<close> cells\<close>
          else if \<not> malloc_ok P (arg_input_len a) then Inl OutOfMemory
          else if 2 ^ 61 \<le> unat (arg_input_len a) then Inl Undefined
          \<comment> \<open>\<^verbatim>\<open>plhs[0]\<close>, \<^verbatim>\<open>bufferHist\<close>\<close>
          else if \<not> can_alloc P (unat (arg_n_bins a) * unat (num_windows_arg a))
          then Inl OutOfMemory
          else if \<not> can_alloc P (unat (arg_n_bins a)) then Inl OutOfMemory
          \<comment> \<open>the first \<^verbatim>\<open>pushHist\<close> reads \<^verbatim>\<open>win_len\<close> cells of \<^verbatim>\<open>input_int\<close>\<close>
          else if arg_input_len a < arg_win_len a then Inl Undefined
          \<comment> \<open>\<^verbatim>\<open>offsets\<close>: here \<open>stride < win_len \<le> input_len < 2^61\<close>, its byte count does not wrap\<close>
          else if \<not> malloc_ok P (stride_of a) then Inl OutOfMemory
          else Inr (mx_outputs P junk a))"

section \<open>The histogram of a window counted from scratch\<close>

text \<open>
  The reference of the specification: bin every value with the binner, and count, for each
  bin, the positions of the window \<open>[start, start + win_len)\<close> whose bin it is.
\<close>

definition scratch_hist ::
  "(int \<Rightarrow> cint) \<Rightarrow> rbuf \<Rightarrow> size_t \<Rightarrow> nat \<Rightarrow> nat \<Rightarrow> nat \<Rightarrow> int" where
  "scratch_hist oor input n_bins start win_len b =
     int (length (filter (\<lambda>i. sint (bin_of oor (input i) n_bins) = int b)
                         [start..<start + win_len]))"

definition column_sum :: "dbuf \<Rightarrow> nat \<Rightarrow> nat \<Rightarrow> int" where
  \<comment> \<open>the sum of column \<open>w\<close> of an \<open>n_bins\<close>-row matrix stored by columns\<close>
  "column_sum hm n_bins w = (\<Sum>b\<leftarrow>[0..<n_bins]. hm (b + w * n_bins))"

text \<open>
  No bin index is dropped as out of range during a run of \<^verbatim>\<open>tswHist\<close>: the positions it
  pushes (the first window, then the \<open>stride\<close> arriving positions of each transition: every
  position below \<open>win_len + (num_windows - 1) * stride\<close>) pass the range test of
  \<^verbatim>\<open>pushHist\<close>, and the positions it pops (every position below
  \<open>(num_windows - 1) * stride\<close>) pass the range test of \<^verbatim>\<open>popHist\<close>.
\<close>

definition no_drop ::
  "(int \<Rightarrow> cint) \<Rightarrow> rbuf \<Rightarrow> size_t \<Rightarrow> size_t \<Rightarrow> size_t \<Rightarrow> size_t \<Rightarrow> bool" where
  "no_drop oor input_norm input_len n_bins win_len stride \<longleftrightarrow>
     (let popped = (unat (num_windows_of input_len win_len stride) - 1) * unat stride
      in list_all (\<lambda>i. in_range_size (bin_of oor (input_norm i) n_bins) n_bins)
                  [0..<unat win_len + popped]
         \<and> list_all (\<lambda>i. in_range_int (bin_of oor (input_norm i) n_bins) n_bins)
                     [0..<popped])"

section \<open>Examples\<close>

text \<open>
  Eight doubles whose products with 4 are integers; on four bins their binned sequence is
  that of the worked example of the specification, \<open>0, 0, 1, 1, 2, 2, 3, 3\<close>.
\<close>

definition example_input :: rbuf where
  "example_input i = (if i < 8 then [0, 0, 1 / 4, 1 / 4, 1 / 2, 1 / 2, 3 / 4, 1] ! i else 0)"

text \<open>
  A platform on which the undefined conversions yield \<^verbatim>\<open>INT_MIN\<close> (as on x86-64) and the
  allocator grants arrays of up to \<open>2^32\<close> doubles.
\<close>

definition oor_min :: "int \<Rightarrow> cint" where
  "oor_min d = - 2147483648"

definition example_platform :: platform where
  "example_platform = \<lparr>oor_int = oor_min, nan_int = - 2147483648, max_cells = 4294967296\<rparr>"

text \<open>
  Calls of the gateways: the worked example with its three scalars left open, a call on an
  input of zeros with the input length, the window length and the stride left open, and a
  call on a constant input.
\<close>

definition example_call :: "size_t \<Rightarrow> size_t \<Rightarrow> size_t \<Rightarrow> mex_args" where
  "example_call n_bins win_len stride =
     \<lparr>arg_nrhs = 4, arg_is_real = True, arg_input = example_input, arg_input_len = 8,
      arg_n_bins = n_bins, arg_win_len = win_len, arg_stride = stride\<rparr>"

definition short_call :: "size_t \<Rightarrow> size_t \<Rightarrow> size_t \<Rightarrow> mex_args" where
  "short_call input_len win_len stride =
     \<lparr>arg_nrhs = 4, arg_is_real = True, arg_input = rzeros, arg_input_len = input_len,
      arg_n_bins = 4, arg_win_len = win_len, arg_stride = stride\<rparr>"

definition constant_call :: mex_args where
  "constant_call =
     \<lparr>arg_nrhs = 4, arg_is_real = True, arg_input = (\<lambda>_. 1 / 2), arg_input_len = 3,
      arg_n_bins = 4, arg_win_len = 2, arg_stride = 1\<rparr>"

text \<open>
  Two states of the five buffers that differ at most in the accumulator and in the cells
  \<open>lo \<le> c < hi\<close> of the histogram matrix.
\<close>

definition same_outside :: "nat \<Rightarrow> nat \<Rightarrow> bufs \<Rightarrow> bufs \<Rightarrow> bool" where
  "same_outside lo hi s t \<longleftrightarrow>
     input_int t = input_int s \<and> strided_windows_loci t = strided_windows_loci s
     \<and> offsets t = offsets s \<and> (\<forall>c. c < lo \<or> hi \<le> c \<longrightarrow> histMat t c = histMat s c)"

text \<open>Buffers for the sliding loop: a matrix filled with sevens, bins \<open>i mod 4\<close>.\<close>

definition example_bufs :: bufs where
  "example_bufs =
     \<lparr>histMat = (\<lambda>_. 7), bufferHist = zeros, input_int = (\<lambda>i. int i mod 4),
      strided_windows_loci = fill_loci 3 2 zeros, offsets = fill_offsets 2 zeros\<rparr>"

section \<open>Counting positions\<close>

text \<open>
  What one call of the loop body of \<^verbatim>\<open>pushHist\<close> (of \<^verbatim>\<open>popHist\<close>) at position \<open>i\<close> does
  to cell \<open>k\<close> of the accumulator: it changes it exactly when the bin at \<open>i\<close> passes the
  range test and is \<open>k\<close>.
\<close>

definition hits_push :: "(int \<Rightarrow> cint) \<Rightarrow> dbuf \<Rightarrow> size_t \<Rightarrow> nat \<Rightarrow> nat \<Rightarrow> bool" where
  "hits_push oor inp n_bins k i \<longleftrightarrow>
     in_range_size (int_of_double oor (inp i)) n_bins
     \<and> nat (sint (int_of_double oor (inp i))) = k"

definition hits_pop :: "(int \<Rightarrow> cint) \<Rightarrow> dbuf \<Rightarrow> size_t \<Rightarrow> nat \<Rightarrow> nat \<Rightarrow> bool" where
  "hits_pop oor inp n_bins k i \<longleftrightarrow>
     in_range_int (int_of_double oor (inp i)) n_bins
     \<and> nat (sint (int_of_double oor (inp i))) = k"

definition count_in :: "(nat \<Rightarrow> bool) \<Rightarrow> nat \<Rightarrow> nat \<Rightarrow> int" where
  "count_in P a b = int (length (filter P [a..<b]))"

text \<open>
  The accumulator after \<open>m\<close> transitions of the sliding loop, started on \<open>bh\<close>: every
  position below \<open>m * S\<close> has been popped and every position from \<open>W\<close> to \<open>W + m * S\<close>
  pushed.
\<close>

definition after_pops ::
  "(int \<Rightarrow> cint) \<Rightarrow> dbuf \<Rightarrow> dbuf \<Rightarrow> size_t \<Rightarrow> nat \<Rightarrow> nat \<Rightarrow> nat \<Rightarrow> nat \<Rightarrow> int" where
  "after_pops oor bh inp n S W m k =
     bh k - count_in (hits_pop oor inp n k) 0 (m * S)
     + count_in (hits_push oor inp n k) W (W + m * S)"

section \<open>Arithmetic of the window positions\<close>

lemma num_windows_unat:
  assumes "0 < stride" "stride < win_len" "win_len \<le> input_len"
  shows "unat (num_windows_of input_len win_len stride)
           = (unat input_len - unat win_len) div unat stride + 1"
proof -
  have w: "unat win_len \<le> unat input_len" using assms(3) by (simp add: word_le_nat_alt)
  have w1: "1 \<le> unat win_len" using assms(1,2) by (simp add: word_less_nat_alt)
  have d: "unat ((input_len - win_len) div stride) = (unat input_len - unat win_len) div unat stride"
    using assms(3) by (simp add: unat_div unat_sub)
  have q: "(unat input_len - unat win_len) div unat stride \<le> unat input_len - unat win_len"
    by (rule div_le_dividend)
  have n: "unat input_len < 18446744073709551616" using unsigned_less [of input_len] by simp
  have "(unat input_len - unat win_len) div unat stride + 1 < 18446744073709551616"
    using q n w w1 by linarith
  then have b: "unat ((input_len - win_len) div stride) + unat (1::size_t) < 2 ^ LENGTH(64)"
    using d by simp
  have "unat ((input_len - win_len) div stride + 1)
          = unat ((input_len - win_len) div stride) + unat (1::size_t)"
    using b by (simp only: unat_add_lem [THEN iffD1])
  then show ?thesis by (simp add: num_windows_of_def d)
qed


lemma fold_fill:
  "fold (\<lambda>i f. f(i := g i)) [a..<b] f0 k = (if a \<le> k \<and> k < b then g k else f0 k)"
  by (induction b) auto

lemma fill_loci_at:
  "i < unat nw \<Longrightarrow> fill_loci nw stride l i = double_of_size (of_nat i * stride + 1)"
  by (simp add: fill_loci_def fold_fill)

lemma fill_offsets_at:
  "j < unat stride \<Longrightarrow> fill_offsets stride f j = - double_of_size (stride - 1 - of_nat j)"
  by (simp add: fill_offsets_def fold_fill)

lemma window_bound:
  assumes "0 < stride" "stride < win_len" "win_len \<le> input_len"
    and "w < unat (num_windows_of input_len win_len stride)"
  shows "w * unat stride + unat win_len \<le> unat input_len"
proof -
  have nw: "unat (num_windows_of input_len win_len stride)
           = (unat input_len - unat win_len) div unat stride + 1"
    using assms(1-3) by (rule num_windows_unat)
  have le: "unat win_len \<le> unat input_len" using assms(3) by (simp add: word_le_nat_alt)
  have "w \<le> (unat input_len - unat win_len) div unat stride" using assms(4) nw by simp
  then have "w * unat stride \<le> (unat input_len - unat win_len) div unat stride * unat stride"
    by (rule mult_le_mono1)
  also have "\<dots> \<le> unat input_len - unat win_len" by simp
  finally show ?thesis using le by simp
qed

lemma pop_idx_word:
  assumes "1 \<le> w" "w < unat nw" "j < unat stride"
  shows "pop_idx (fill_loci nw stride l) (fill_offsets stride f) w j
           = of_nat ((w - 1) * unat stride + j)"
proof -
  have w1: "(of_nat (w - Suc 0) :: size_t) = of_nat w - 1" using assms(1) by (simp add: of_nat_diff)
  have r: "(of_nat ((w - 1) * unat stride + j) :: size_t) = (of_nat w - 1) * stride + of_nat j"
    by (simp add: w1)
  have l: "pop_idx (fill_loci nw stride l) (fill_offsets stride f) w j
             = of_nat w * stride + 1 - 2 + - (stride - 1 - of_nat j)"
    using assms
    by (simp add: pop_idx_def base_pop_def fill_loci_at fill_offsets_at size_of_double_def
        double_of_size_def)
  show ?thesis unfolding l r by (simp add: algebra_simps)
qed

lemma push_idx_word:
  assumes "w < unat nw" "j < unat stride" "unat stride < unat win_len"
  shows "push_idx (fill_loci nw stride l) (fill_offsets stride f) win_len w j
           = of_nat (w * unat stride + (unat win_len - unat stride) + j)"
proof -
  have l: "push_idx (fill_loci nw stride l) (fill_offsets stride f) win_len w j
             = of_nat w * stride + 1 + win_len - 2 + - (stride - 1 - of_nat j)"
    using assms(1,2)
    by (simp add: push_idx_def base_push_def fill_loci_at fill_offsets_at size_of_double_def
        double_of_size_def)
  have d: "(of_nat (unat win_len - unat stride) :: size_t) = win_len - stride"
    using assms(3) by (simp add: of_nat_diff)
  have r: "(of_nat (w * unat stride + (unat win_len - unat stride) + j) :: size_t)
             = of_nat w * stride + (win_len - stride) + of_nat j"
    unfolding of_nat_add d by simp
  show ?thesis unfolding l r by (simp add: algebra_simps)
qed

lemma unat_of_nat_small: "n < 2 ^ 64 \<Longrightarrow> unat (of_nat n :: size_t) = n"
  by (simp add: unat_of_nat)

lemma pred_mult_add: "1 \<le> w \<Longrightarrow> (w - 1) * (s::nat) + s = w * s"
  by (cases w) simp_all

lemma size_bound: "unat (x::size_t) < 2 ^ 64"
  using unsigned_less [of x] by simp

lemma pop_idx_unat:
  assumes "1 \<le> w" "w < unat nw" "j < unat stride"
    and "(w - 1) * unat stride + j < unat (input_len::size_t)"
  shows "unat (pop_idx (fill_loci nw stride l) (fill_offsets stride f) w j)
           = (w - 1) * unat stride + j"
proof -
  have "(w - 1) * unat stride + j < 2 ^ 64"
    using assms(4) size_bound [of input_len] by linarith
  then show ?thesis
    by (simp only: pop_idx_word [OF assms(1,2,3)] unat_of_nat_small)
qed


lemma push_idx_unat:
  assumes "w < unat nw" "j < unat stride" "unat stride < unat win_len"
    and "w * unat stride + (unat win_len - unat stride) + j < unat (input_len::size_t)"
  shows "unat (push_idx (fill_loci nw stride l) (fill_offsets stride f) win_len w j)
           = w * unat stride + unat win_len - unat stride + j"
proof -
  have "w * unat stride + (unat win_len - unat stride) + j < 2 ^ 64"
    using assms(4) size_bound [of input_len] by linarith
  then have "unat (push_idx (fill_loci nw stride l) (fill_offsets stride f) win_len w j)
           = w * unat stride + (unat win_len - unat stride) + j"
    by (simp only: push_idx_word [OF assms(1,2,3)] unat_of_nat_small)
  then show ?thesis using assms(3) by linarith
qed

section \<open>The loops in closed form\<close>

lemma count_in_empty: "count_in P a a = 0"
  by (simp add: count_in_def)

lemma count_in_Suc: "a \<le> b \<Longrightarrow> count_in P a (Suc b) = count_in P a b + (if P b then 1 else 0)"
  by (simp add: count_in_def)

lemma count_in_split: "a \<le> b \<Longrightarrow> b \<le> c \<Longrightarrow> count_in P a c = count_in P a b + count_in P b c"
proof -
  assume "a \<le> b" "b \<le> c"
  then have "[a..<c] = [a..<b] @ [b..<c]"
    by (metis le_Suc_ex upt_add_eq_append)
  then show ?thesis by (simp add: count_in_def)
qed

lemma count_in_cong: "(\<And>i. a \<le> i \<Longrightarrow> i < b \<Longrightarrow> P i = Q i) \<Longrightarrow> count_in P a b = count_in Q a b"
proof -
  assume h: "\<And>i. a \<le> i \<Longrightarrow> i < b \<Longrightarrow> P i = Q i"
  have "filter P [a..<b] = filter Q [a..<b]"
    by (rule filter_cong) (auto simp: h)
  then show ?thesis by (simp add: count_in_def)
qed

lemma push_step_at:
  "push_step oor inp n i h k = h k + (if hits_push oor inp n k i then 1 else 0)"
  by (auto simp: push_step_def hits_push_def Let_def)

lemma pop_step_at:
  "pop_step oor inp n i h k = h k - (if hits_pop oor inp n k i then 1 else 0)"
  by (auto simp: pop_step_def hits_pop_def Let_def)

lemma fold_push_count:
  "fold (push_step oor inp n) [0..<m] h k = h k + count_in (hits_push oor inp n k) 0 m"
  by (induction m) (simp_all add: count_in_empty count_in_Suc push_step_at)

lemma fold_pop_count:
  "fold (pop_step oor inp n) [0..<m] h k = h k - count_in (hits_pop oor inp n k) 0 m"
  by (induction m) (simp_all add: count_in_empty count_in_Suc pop_step_at)

lemma pushHist_count:
  "pushHist oor h inp len n k = h k + count_in (hits_push oor inp n k) 0 (unat len)"
  by (simp add: pushHist_def fold_push_count)

lemma popHist_count:
  "popHist oor h inp len n k = h k - count_in (hits_pop oor inp n k) 0 (unat len)"
  by (simp add: popHist_def fold_pop_count)

lemma pushHist_one:
  "pushHist oor h (shift inp a) 1 n = (\<lambda>k. h k + (if hits_push oor inp n k a then 1 else 0))"
  by (rule ext) (simp add: pushHist_def push_step_at hits_push_def shift_def)

lemma popHist_one:
  "popHist oor h (shift inp a) 1 n = (\<lambda>k. h k - (if hits_pop oor inp n k a then 1 else 0))"
  by (rule ext) (simp add: popHist_def pop_step_at hits_pop_def shift_def)


lemma pop_one_at:
  assumes "unat (pop_idx (strided_windows_loci s) (offsets s) w j) = a"
    and "a < unat input_len"
  shows "pop_one oor n input_len w j s
           = s\<lparr>bufferHist := (\<lambda>k. bufferHist s k - (if hits_pop oor (input_int s) n k a then 1 else 0))\<rparr>"
proof -
  have "pop_idx (strided_windows_loci s) (offsets s) w j < input_len"
    unfolding word_less_nat_alt using assms by simp
  then show ?thesis
    by (simp add: pop_one_def Let_def assms(1) popHist_one)
qed

lemma push_one_at:
  assumes "unat (push_idx (strided_windows_loci s) (offsets s) win_len w j) = a"
    and "a < unat input_len"
  shows "push_one (pushHist oor) win_len n input_len w j s
           = s\<lparr>bufferHist := (\<lambda>k. bufferHist s k + (if hits_push oor (input_int s) n k a then 1 else 0))\<rparr>"
proof -
  have "push_idx (strided_windows_loci s) (offsets s) win_len w j < input_len"
    unfolding word_less_nat_alt using assms by simp
  then show ?thesis
    by (simp add: push_one_def Let_def assms(1) pushHist_one)
qed

lemma pops_fold:
  assumes "\<And>j. j < m \<Longrightarrow> unat (pop_idx (strided_windows_loci s) (offsets s) w j) = a + j"
    and "a + m \<le> unat input_len"
  shows "fold (pop_one oor n input_len w) [0..<m] s
           = s\<lparr>bufferHist := (\<lambda>k. bufferHist s k - count_in (hits_pop oor (input_int s) n k) a (a + m))\<rparr>"
  using assms
proof (induction m)
  case 0
  then show ?case by (simp add: count_in_empty)
next
  case (Suc m)
  let ?s1 = "s\<lparr>bufferHist := (\<lambda>k. bufferHist s k - count_in (hits_pop oor (input_int s) n k) a (a + m))\<rparr>"
  have ih: "fold (pop_one oor n input_len w) [0..<m] s = ?s1"
    using Suc by simp
  have idx: "unat (pop_idx (strided_windows_loci ?s1) (offsets ?s1) w m) = a + m"
    using Suc.prems(1) [of m] by simp
  have lt: "a + m < unat input_len" using Suc.prems(2) by simp
  have "fold (pop_one oor n input_len w) [0..<Suc m] s = pop_one oor n input_len w m ?s1"
    using ih by simp
  also have "\<dots> = ?s1\<lparr>bufferHist := (\<lambda>k. bufferHist ?s1 k - (if hits_pop oor (input_int ?s1) n k (a + m) then 1 else 0))\<rparr>"
    using idx lt by (rule pop_one_at)
  also have "\<dots> = s\<lparr>bufferHist := (\<lambda>k. bufferHist s k - count_in (hits_pop oor (input_int s) n k) a (a + Suc m))\<rparr>"
    by (simp add: count_in_Suc algebra_simps)
  finally show ?case .
qed

lemma pushes_fold:
  assumes "\<And>j. j < m \<Longrightarrow> unat (push_idx (strided_windows_loci s) (offsets s) win_len w j) = a + j"
    and "a + m \<le> unat input_len"
  shows "fold (push_one (pushHist oor) win_len n input_len w) [0..<m] s
           = s\<lparr>bufferHist := (\<lambda>k. bufferHist s k + count_in (hits_push oor (input_int s) n k) a (a + m))\<rparr>"
  using assms
proof (induction m)
  case 0
  then show ?case by (simp add: count_in_empty)
next
  case (Suc m)
  let ?s1 = "s\<lparr>bufferHist := (\<lambda>k. bufferHist s k + count_in (hits_push oor (input_int s) n k) a (a + m))\<rparr>"
  have ih: "fold (push_one (pushHist oor) win_len n input_len w) [0..<m] s = ?s1"
    using Suc by simp
  have idx: "unat (push_idx (strided_windows_loci ?s1) (offsets ?s1) win_len w m) = a + m"
    using Suc.prems(1) [of m] by simp
  have lt: "a + m < unat input_len" using Suc.prems(2) by simp
  have "fold (push_one (pushHist oor) win_len n input_len w) [0..<Suc m] s
          = push_one (pushHist oor) win_len n input_len w m ?s1"
    using ih by simp
  also have "\<dots> = ?s1\<lparr>bufferHist := (\<lambda>k. bufferHist ?s1 k + (if hits_push oor (input_int ?s1) n k (a + m) then 1 else 0))\<rparr>"
    using idx lt by (rule push_one_at)
  also have "\<dots> = s\<lparr>bufferHist := (\<lambda>k. bufferHist s k + count_in (hits_push oor (input_int s) n k) a (a + Suc m))\<rparr>"
    by (simp add: count_in_Suc algebra_simps)
  finally show ?case .
qed

lemma store_idx:
  assumes "b + w * unat n < 2 ^ 64"
  shows "unat (of_nat b + of_nat w * n :: size_t) = b + w * unat n"
proof -
  have "(of_nat b + of_nat w * n :: size_t) = of_nat (b + w * unat n)" by simp
  then show ?thesis using assms by (simp only: unat_of_nat_small)
qed

lemma store_fold:
  assumes "m + w * unat n \<le> 2 ^ 64"
  shows "fold (store_one n w) [0..<m] s
           = s\<lparr>histMat := (\<lambda>c. if w * unat n \<le> c \<and> c < w * unat n + m
                                then bufferHist s (c - w * unat n) else histMat s c)\<rparr>"
  using assms
proof (induction m)
  case 0
  have "(\<lambda>c. if w * unat n \<le> c \<and> c < w * unat n + 0
              then bufferHist s (c - w * unat n) else histMat s c) = histMat s"
    by (simp add: fun_eq_iff)
  then show ?case by simp
next
  case (Suc m)
  let ?s1 = "s\<lparr>histMat := (\<lambda>c. if w * unat n \<le> c \<and> c < w * unat n + m
                                then bufferHist s (c - w * unat n) else histMat s c)\<rparr>"
  have ih: "fold (store_one n w) [0..<m] s = ?s1" using Suc by simp
  have i: "unat (of_nat m + of_nat w * n :: size_t) = m + w * unat n"
    using Suc.prems by (intro store_idx) simp
  have "fold (store_one n w) [0..<Suc m] s = store_one n w m ?s1" using ih by simp
  also have "\<dots> = s\<lparr>histMat := (\<lambda>c. if w * unat n \<le> c \<and> c < w * unat n + Suc m
                                then bufferHist s (c - w * unat n) else histMat s c)\<rparr>"
    unfolding store_one_def i by (auto simp: fun_eq_iff)
  finally show ?case .
qed


lemma col_div_mod:
  assumes "w * n \<le> c" "c < w * n + (n::nat)"
  shows "c div n = w \<and> c mod n = c - w * n"
proof -
  obtain r where r: "c = w * n + r" using assms(1) by (metis le_Suc_ex)
  have "r < n" using assms(2) r by simp
  then show ?thesis using r by simp
qed

lemma window_step_at:
  assumes v: "0 < stride" "stride < win_len" "win_len \<le> input_len"
    and w: "1 \<le> w" "w < unat (num_windows_of input_len win_len stride)"
    and l: "strided_windows_loci s = fill_loci (num_windows_of input_len win_len stride) stride l0"
    and f: "offsets s = fill_offsets stride f0"
    and addr: "unat n + w * unat n \<le> 2 ^ 64"
  shows "window_step oor (pushHist oor) win_len n stride input_len w s
     = s\<lparr>bufferHist := (\<lambda>k. bufferHist s k
            - count_in (hits_pop oor (input_int s) n k) ((w - 1) * unat stride) (w * unat stride)
            + count_in (hits_push oor (input_int s) n k)
                ((w - 1) * unat stride + unat win_len) (w * unat stride + unat win_len)),
         histMat := (\<lambda>c. if w * unat n \<le> c \<and> c < w * unat n + unat n
            then bufferHist s (c - w * unat n)
              - count_in (hits_pop oor (input_int s) n (c - w * unat n)) ((w - 1) * unat stride) (w * unat stride)
              + count_in (hits_push oor (input_int s) n (c - w * unat n))
                  ((w - 1) * unat stride + unat win_len) (w * unat stride + unat win_len)
            else histMat s c)\<rparr>"
proof -
  let ?S = "unat stride" and ?W = "unat win_len" and ?N = "unat input_len"
  let ?nw = "num_windows_of input_len win_len stride"
  have wb: "w * ?S + ?W \<le> ?N" using v w(2) by (rule window_bound)
  have sw: "?S < ?W" using v(2) by (simp add: word_less_nat_alt)
  have ws: "(w - 1) * ?S + ?S = w * ?S" using w(1) by (rule pred_mult_add)
  have pa: "\<And>j. j < ?S \<Longrightarrow> unat (pop_idx (strided_windows_loci s) (offsets s) w j) = (w - 1) * ?S + j"
  proof -
    fix j assume j: "j < ?S"
    have "(w - 1) * ?S + j < ?N" using ws wb j by linarith
    with w j show "unat (pop_idx (strided_windows_loci s) (offsets s) w j) = (w - 1) * ?S + j"
      unfolding l f by (rule pop_idx_unat)
  qed
  have pb: "(w - 1) * ?S + ?S \<le> ?N" using ws wb by linarith
  let ?s1 = "s\<lparr>bufferHist := (\<lambda>k. bufferHist s k
               - count_in (hits_pop oor (input_int s) n k) ((w - 1) * ?S) ((w - 1) * ?S + ?S))\<rparr>"
  have p: "fold (pop_one oor n input_len w) [0..<?S] s = ?s1"
    using pa pb by (rule pops_fold)
  let ?a = "(w - 1) * ?S + ?W"
  have a_eq: "?a = w * ?S + ?W - ?S" using ws sw by linarith
  have qa: "\<And>j. j < ?S \<Longrightarrow>
      unat (push_idx (strided_windows_loci ?s1) (offsets ?s1) win_len w j) = ?a + j"
  proof -
    fix j assume j: "j < ?S"
    have b: "w * ?S + (?W - ?S) + j < ?N" using wb sw j by linarith
    have "unat (push_idx (fill_loci ?nw stride l0) (fill_offsets stride f0) win_len w j)
            = w * ?S + ?W - ?S + j"
      using w(2) j sw b by (rule push_idx_unat)
    then show "unat (push_idx (strided_windows_loci ?s1) (offsets ?s1) win_len w j) = ?a + j"
      using a_eq l f by simp
  qed
  have qb: "?a + ?S \<le> ?N" using a_eq wb sw by linarith
  let ?s2 = "?s1\<lparr>bufferHist := (\<lambda>k. bufferHist ?s1 k
               + count_in (hits_push oor (input_int ?s1) n k) ?a (?a + ?S))\<rparr>"
  have q: "fold (push_one (pushHist oor) win_len n input_len w) [0..<?S] ?s1 = ?s2"
    using qa qb by (rule pushes_fold)
  have st: "fold (store_one n w) [0..<unat n] ?s2
           = ?s2\<lparr>histMat := (\<lambda>c. if w * unat n \<le> c \<and> c < w * unat n + unat n
                                then bufferHist ?s2 (c - w * unat n) else histMat ?s2 c)\<rparr>"
    using addr by (rule store_fold)
  have e1: "(w - 1) * ?S + ?S = w * ?S" by (rule ws)
  have e2: "?a + ?S = w * ?S + ?W" using a_eq sw by linarith
  have "window_step oor (pushHist oor) win_len n stride input_len w s
          = fold (store_one n w) [0..<unat n] ?s2"
    unfolding window_step_def by (simp only: p q)
  also have "\<dots> = ?s2\<lparr>histMat := (\<lambda>c. if w * unat n \<le> c \<and> c < w * unat n + unat n
                                then bufferHist ?s2 (c - w * unat n) else histMat ?s2 c)\<rparr>"
    by (rule st)
  finally have fin: "window_step oor (pushHist oor) win_len n stride input_len w s
          = ?s2\<lparr>histMat := (\<lambda>c. if w * unat n \<le> c \<and> c < w * unat n + unat n
                                then bufferHist ?s2 (c - w * unat n) else histMat ?s2 c)\<rparr>" .
  show ?thesis
    unfolding fin by (simp add: e1 e2 del: One_nat_def cong: if_cong)
qed


lemma after_pops_0: "after_pops oor bh inp n S W 0 k = bh k"
  by (simp add: after_pops_def count_in_empty)

lemma after_pops_Suc:
  "after_pops oor bh inp n S W (Suc m) k
     = after_pops oor bh inp n S W m k
       - count_in (hits_pop oor inp n k) (m * S) (Suc m * S)
       + count_in (hits_push oor inp n k) (m * S + W) (Suc m * S + W)"
proof -
  have a: "count_in (hits_pop oor inp n k) 0 (Suc m * S)
         = count_in (hits_pop oor inp n k) 0 (m * S) + count_in (hits_pop oor inp n k) (m * S) (Suc m * S)"
    by (rule count_in_split) simp_all
  have b: "count_in (hits_push oor inp n k) W (W + Suc m * S)
         = count_in (hits_push oor inp n k) W (W + m * S)
           + count_in (hits_push oor inp n k) (W + m * S) (W + Suc m * S)"
    by (rule count_in_split) simp_all
  have c: "m * S + W = W + m * S" "Suc m * S + W = W + Suc m * S" by simp_all
  show ?thesis unfolding after_pops_def a b c by simp
qed

lemma sliding_loop_at:
  assumes v: "0 < stride" "stride < win_len" "win_len \<le> input_len"
    and l: "strided_windows_loci s0 = fill_loci (num_windows_of input_len win_len stride) stride l0"
    and f: "offsets s0 = fill_offsets stride f0"
    and m: "m < unat (num_windows_of input_len win_len stride)"
    and addr: "Suc m * unat n \<le> 2 ^ 64"
  shows "fold (window_step oor (pushHist oor) win_len n stride input_len) [1..<Suc m] s0
     = s0\<lparr>bufferHist := after_pops oor (bufferHist s0) (input_int s0) n (unat stride) (unat win_len) m,
          histMat := (\<lambda>c. if unat n \<le> c \<and> c < Suc m * unat n
             then after_pops oor (bufferHist s0) (input_int s0) n (unat stride) (unat win_len)
                    (c div unat n) (c mod unat n)
             else histMat s0 c)\<rparr>"
  using m addr
proof (induction m)
  case 0
  have a: "after_pops oor (bufferHist s0) (input_int s0) n (unat stride) (unat win_len) 0 = bufferHist s0"
    by (rule ext) (rule after_pops_0)
  have b: "(\<lambda>c. if unat n \<le> c \<and> c < Suc 0 * unat n
             then after_pops oor (bufferHist s0) (input_int s0) n (unat stride) (unat win_len)
                    (c div unat n) (c mod unat n)
             else histMat s0 c) = histMat s0"
    by (rule ext) simp
  show ?case unfolding a b by simp
next
  case (Suc m)
  let ?AP = "after_pops oor (bufferHist s0) (input_int s0) n (unat stride) (unat win_len)"
  let ?s1 = "s0\<lparr>bufferHist := ?AP m,
          histMat := (\<lambda>c. if unat n \<le> c \<and> c < Suc m * unat n
             then ?AP (c div unat n) (c mod unat n) else histMat s0 c)\<rparr>"
  have m': "m < unat (num_windows_of input_len win_len stride)" using Suc.prems(1) by simp
  have addr': "Suc m * unat n \<le> 2 ^ 64" using Suc.prems(2) by simp
  have ih: "fold (window_step oor (pushHist oor) win_len n stride input_len) [1..<Suc m] s0 = ?s1"
    using m' addr' by (rule Suc.IH)
  have l1: "strided_windows_loci ?s1
              = fill_loci (num_windows_of input_len win_len stride) stride l0"
    using l by simp
  have f1: "offsets ?s1 = fill_offsets stride f0" using f by simp
  have one: "1 \<le> Suc m" by simp
  have addr1: "unat n + Suc m * unat n \<le> 2 ^ 64" using Suc.prems(2) by simp
  have ws: "window_step oor (pushHist oor) win_len n stride input_len (Suc m) ?s1
     = ?s1\<lparr>bufferHist := (\<lambda>k. bufferHist ?s1 k
            - count_in (hits_pop oor (input_int ?s1) n k) ((Suc m - 1) * unat stride) (Suc m * unat stride)
            + count_in (hits_push oor (input_int ?s1) n k)
                ((Suc m - 1) * unat stride + unat win_len) (Suc m * unat stride + unat win_len)),
         histMat := (\<lambda>c. if Suc m * unat n \<le> c \<and> c < Suc m * unat n + unat n
            then bufferHist ?s1 (c - Suc m * unat n)
              - count_in (hits_pop oor (input_int ?s1) n (c - Suc m * unat n)) ((Suc m - 1) * unat stride) (Suc m * unat stride)
              + count_in (hits_push oor (input_int ?s1) n (c - Suc m * unat n))
                  ((Suc m - 1) * unat stride + unat win_len) (Suc m * unat stride + unat win_len)
            else histMat ?s1 c)\<rparr>"
    using v one Suc.prems(1) l1 f1 addr1 by (rule window_step_at)
  have bh: "(\<lambda>k. bufferHist ?s1 k
            - count_in (hits_pop oor (input_int ?s1) n k) ((Suc m - 1) * unat stride) (Suc m * unat stride)
            + count_in (hits_push oor (input_int ?s1) n k)
                ((Suc m - 1) * unat stride + unat win_len) (Suc m * unat stride + unat win_len))
          = ?AP (Suc m)"
    by (rule ext) (simp add: after_pops_Suc)
  have hm: "(\<lambda>c. if Suc m * unat n \<le> c \<and> c < Suc m * unat n + unat n
            then bufferHist ?s1 (c - Suc m * unat n)
              - count_in (hits_pop oor (input_int ?s1) n (c - Suc m * unat n)) ((Suc m - 1) * unat stride) (Suc m * unat stride)
              + count_in (hits_push oor (input_int ?s1) n (c - Suc m * unat n))
                  ((Suc m - 1) * unat stride + unat win_len) (Suc m * unat stride + unat win_len)
            else histMat ?s1 c)
          = (\<lambda>c. if unat n \<le> c \<and> c < Suc (Suc m) * unat n
             then ?AP (c div unat n) (c mod unat n) else histMat s0 c)"
  proof (rule ext)
    fix c
    show "(if Suc m * unat n \<le> c \<and> c < Suc m * unat n + unat n
            then bufferHist ?s1 (c - Suc m * unat n)
              - count_in (hits_pop oor (input_int ?s1) n (c - Suc m * unat n)) ((Suc m - 1) * unat stride) (Suc m * unat stride)
              + count_in (hits_push oor (input_int ?s1) n (c - Suc m * unat n))
                  ((Suc m - 1) * unat stride + unat win_len) (Suc m * unat stride + unat win_len)
            else histMat ?s1 c)
          = (if unat n \<le> c \<and> c < Suc (Suc m) * unat n
             then ?AP (c div unat n) (c mod unat n) else histMat s0 c)"
    proof (cases "Suc m * unat n \<le> c \<and> c < Suc m * unat n + unat n")
      case True
      then have dm: "c div unat n = Suc m \<and> c mod unat n = c - Suc m * unat n"
        by (intro col_div_mod) simp_all
      have r: "unat n \<le> c \<and> c < Suc (Suc m) * unat n" using True by simp
      show ?thesis using True r dm by (simp add: after_pops_Suc)
    next
      case False
      then have e: "(unat n \<le> c \<and> c < Suc (Suc m) * unat n) = (unat n \<le> c \<and> c < Suc m * unat n)"
        by auto
      have h: "histMat ?s1 c = (if unat n \<le> c \<and> c < Suc m * unat n
             then ?AP (c div unat n) (c mod unat n) else histMat s0 c)"
        by simp
      show ?thesis by (simp only: False if_False e h)
    qed
  qed
  have "fold (window_step oor (pushHist oor) win_len n stride input_len) [1..<Suc (Suc m)] s0
          = window_step oor (pushHist oor) win_len n stride input_len (Suc m) ?s1"
    using ih by simp
  also have "\<dots> = ?s1\<lparr>bufferHist := ?AP (Suc m),
         histMat := (\<lambda>c. if unat n \<le> c \<and> c < Suc (Suc m) * unat n
             then ?AP (c div unat n) (c mod unat n) else histMat s0 c)\<rparr>"
    unfolding ws bh hm ..
  finally show ?case by simp
qed

section \<open>Rounding to a double\<close>

lemma rne_int: "rne (of_int k) = k"
  by (simp add: rne_def)

lemma rne_range: "\<lfloor>x\<rfloor> \<le> rne x \<and> rne x \<le> \<lfloor>x\<rfloor> + 1"
  by (simp add: rne_def Let_def)

lemma rne_mono:
  assumes "x \<le> y"
  shows "rne x \<le> rne y"
proof (cases "\<lfloor>x\<rfloor> = \<lfloor>y\<rfloor>")
  case True
  have "x - of_int \<lfloor>x\<rfloor> \<le> y - of_int \<lfloor>y\<rfloor>" using assms True by simp
  then show ?thesis using True by (auto simp: rne_def Let_def)
next
  case False
  have "\<lfloor>x\<rfloor> \<le> \<lfloor>y\<rfloor>" using assms by (rule floor_mono)
  then have "\<lfloor>x\<rfloor> + 1 \<le> \<lfloor>y\<rfloor>" using False by simp
  then show ?thesis using rne_range [of x] rne_range [of y] by linarith
qed

lemma binade:
  assumes "0 < x"
  shows "2 powr of_int \<lfloor>log 2 x\<rfloor> \<le> x \<and> x < 2 powr (of_int \<lfloor>log 2 x\<rfloor> + 1)"
proof -
  have "\<lfloor>log 2 x\<rfloor> = \<lfloor>log 2 x\<rfloor> \<longleftrightarrow>
        2 powr of_int \<lfloor>log 2 x\<rfloor> \<le> x \<and> x < 2 powr of_int (\<lfloor>log 2 x\<rfloor> + 1)"
    using assms by (intro floor_log_eq_powr_iff) simp_all
  then show ?thesis by simp
qed

lemma fl_pos_form:
  assumes "0 < x"
  shows "fl x = 2 powr (of_int (\<lfloor>log 2 x\<rfloor> - 52)) * of_int (rne (x / 2 powr (of_int (\<lfloor>log 2 x\<rfloor> - 52))))"
  using assms by (simp add: fl_def Let_def)

lemma scaled_range:
  assumes "0 < x"
  shows "2 ^ 52 \<le> x / 2 powr (of_int (\<lfloor>log 2 x\<rfloor> - 52))
       \<and> x / 2 powr (of_int (\<lfloor>log 2 x\<rfloor> - 52)) \<le> 2 ^ 53"
proof -
  let ?e = "\<lfloor>log 2 x\<rfloor>"
  let ?u = "2 powr (of_int (?e - 52)) :: real"
  have u: "0 < ?u" by simp
  have a: "?u * 2 ^ 52 = 2 powr of_int ?e"
  proof -
    have "?u * 2 powr 52 = 2 powr (of_int (?e - 52) + 52)" by (simp only: powr_add)
    then show ?thesis by simp
  qed
  have b: "?u * 2 ^ 53 = 2 powr (of_int ?e + 1)"
  proof -
    have "?u * 2 powr 53 = 2 powr (of_int (?e - 52) + 53)" by (simp only: powr_add)
    then show ?thesis by (simp add: add.commute)
  qed
  have lo: "?u * 2 ^ 52 \<le> x" using binade [OF assms] a by simp
  have hi: "x \<le> ?u * 2 ^ 53" using binade [OF assms] b by simp
  have "2 ^ 52 \<le> x / ?u" using lo u by (simp add: pos_le_divide_eq mult.commute)
  moreover have "x / ?u \<le> 2 ^ 53" using hi u by (simp add: pos_divide_le_eq mult.commute)
  ultimately show ?thesis by simp
qed

lemma fl_binade:
  assumes "0 < x"
  shows "2 powr of_int \<lfloor>log 2 x\<rfloor> \<le> fl x \<and> fl x \<le> 2 powr (of_int \<lfloor>log 2 x\<rfloor> + 1)"
proof -
  let ?e = "\<lfloor>log 2 x\<rfloor>"
  let ?u = "2 powr (of_int (?e - 52)) :: real"
  let ?m = "x / ?u"
  have u: "0 < ?u" by simp
  have r: "2 ^ 52 \<le> ?m \<and> ?m \<le> 2 ^ 53" using assms by (rule scaled_range)
  have "rne (of_int (2 ^ 52)) \<le> rne ?m" using r by (intro rne_mono) simp
  then have lo: "(2 ^ 52 :: int) \<le> rne ?m" by (simp only: rne_int)
  have "rne ?m \<le> rne (of_int (2 ^ 53))" using r by (intro rne_mono) simp
  then have hi: "rne ?m \<le> (2 ^ 53 :: int)" by (simp only: rne_int)
  have lo': "(2 ^ 52 :: real) \<le> of_int (rne ?m)" using lo by (metis of_int_le_iff of_int_numeral of_int_power)
  have hi': "of_int (rne ?m) \<le> (2 ^ 53 :: real)" using hi by (metis of_int_le_iff of_int_numeral of_int_power)
  have a: "?u * 2 ^ 52 = 2 powr of_int ?e"
  proof -
    have "?u * 2 powr 52 = 2 powr (of_int (?e - 52) + 52)" by (simp only: powr_add)
    then show ?thesis by simp
  qed
  have b: "?u * 2 ^ 53 = 2 powr (of_int ?e + 1)"
  proof -
    have "?u * 2 powr 53 = 2 powr (of_int (?e - 52) + 53)" by (simp only: powr_add)
    then show ?thesis by (simp add: add.commute)
  qed
  have "?u * 2 ^ 52 \<le> ?u * of_int (rne ?m)" using lo' u by (intro mult_left_mono) simp_all
  moreover have "?u * of_int (rne ?m) \<le> ?u * 2 ^ 53" using hi' u by (intro mult_left_mono) simp_all
  ultimately show ?thesis unfolding fl_pos_form [OF assms] a b by simp
qed

lemma fl_mono_pos:
  assumes "0 < x" "x \<le> y"
  shows "fl x \<le> fl y"
proof -
  have y: "0 < y" using assms by linarith
  let ?ex = "\<lfloor>log 2 x\<rfloor>" and ?ey = "\<lfloor>log 2 y\<rfloor>"
  have "log 2 x \<le> log 2 y" using assms y by simp
  then have le: "?ex \<le> ?ey" by (rule floor_mono)
  show ?thesis
  proof (cases "?ex = ?ey")
    case True
    let ?u = "2 powr (of_int (?ex - 52)) :: real"
    have u: "0 < ?u" by simp
    have "x / ?u \<le> y / ?u" using assms(2) u by (simp add: divide_right_mono)
    then have "rne (x / ?u) \<le> rne (y / ?u)" by (rule rne_mono)
    then have "?u * of_int (rne (x / ?u)) \<le> ?u * of_int (rne (y / ?u))"
      using u by (intro mult_left_mono) simp_all
    then show ?thesis unfolding fl_pos_form [OF assms(1)] fl_pos_form [OF y] True [symmetric] .
  next
    case False
    then have "?ex + 1 \<le> ?ey" using le by simp
    then have "(of_int ?ex + 1 :: real) \<le> of_int ?ey" by linarith
    then have "(2::real) powr (of_int ?ex + 1) \<le> 2 powr of_int ?ey"
      by (intro powr_mono) simp_all
    then show ?thesis using fl_binade [OF assms(1)] fl_binade [OF y] by linarith
  qed
qed

lemma fl_0: "fl 0 = 0"
  by (simp add: fl_def)

lemma fl_nonneg: "0 \<le> x \<Longrightarrow> 0 \<le> fl x"
proof (cases "x = 0")
  case True
  then show ?thesis by (simp add: fl_0)
next
  case False
  assume "0 \<le> x"
  then have "0 < x" using False by simp
  then have "2 powr of_int \<lfloor>log 2 x\<rfloor> \<le> fl x" using fl_binade by blast
  moreover have "(0::real) < 2 powr of_int \<lfloor>log 2 x\<rfloor>" by simp
  ultimately show ?thesis by linarith
qed

lemma fl_mono:
  assumes "0 \<le> x" "x \<le> y"
  shows "fl x \<le> fl y"
proof (cases "x = 0")
  case True
  then show ?thesis using assms fl_nonneg [of y] by (simp add: fl_0)
next
  case False
  then have "0 < x" using assms(1) by simp
  then show ?thesis using assms(2) by (rule fl_mono_pos)
qed


lemma fl_exact:
  assumes "0 < x" and "x / 2 powr (of_int (\<lfloor>log 2 x\<rfloor> - 52)) = of_int k"
  shows "fl x = x"
proof -
  let ?u = "2 powr (of_int (\<lfloor>log 2 x\<rfloor> - 52)) :: real"
  have u: "?u \<noteq> 0" by simp
  have "fl x = ?u * of_int (rne (of_int k))"
    unfolding fl_pos_form [OF assms(1)] assms(2) ..
  also have "\<dots> = ?u * (x / ?u)" by (simp only: rne_int assms(2))
  also have "\<dots> = x" using u by simp
  finally show ?thesis .
qed

lemma fl_nat:
  assumes "n < 2 ^ 53"
  shows "fl (real n) = real n"
proof (cases "n = 0")
  case True
  then show ?thesis by (simp add: fl_0)
next
  case False
  then have pos: "0 < real n" by simp
  let ?e = "\<lfloor>log 2 (real n)\<rfloor>"
  have b: "2 powr of_int ?e \<le> real n \<and> real n < 2 powr (of_int ?e + 1)"
    using pos by (rule binade)
  have "real n < 2 ^ 53" using assms by (metis of_nat_less_iff of_nat_numeral of_nat_power)
  then have "real n < 2 powr 53" by simp
  then have "(2::real) powr of_int ?e < 2 powr 53" using b by linarith
  then have "of_int ?e < (53::real)" by (rule powr_less_cancel) simp
  then have e: "?e \<le> 52" by linarith
  define j where "j = nat (52 - ?e)"
  have je: "of_int (?e - 52) = - real j" using e by (simp add: j_def)
  have u: "2 powr (of_int (?e - 52)) = inverse ((2::real) ^ j)"
    unfolding je by (simp add: powr_minus powr_realpow)
  have "real n / 2 powr (of_int (?e - 52)) = of_int (int n * 2 ^ j)"
    unfolding u by (simp add: field_simps)
  with pos show ?thesis by (rule fl_exact)
qed


lemma fl_eval:
  assumes "0 < x" and "2 ^ nat e \<le> x" "x < 2 ^ nat (e + 1)" "0 \<le> e" "e \<le> 52"
  shows "fl x = of_int (rne (x * 2 ^ nat (52 - e))) / 2 ^ nat (52 - e)"
proof -
  have p0: "(2::real) powr of_int e = 2 ^ nat e"
    using assms(4) by (metis of_int_of_nat_eq of_nat_nat powr_realpow zero_less_numeral)
  have p1: "(2::real) powr of_int (e + 1) = 2 ^ nat (e + 1)"
    using assms(4) by (metis add_increasing2 of_int_of_nat_eq of_nat_nat powr_realpow zero_less_numeral zero_le_one)
  have "\<lfloor>log 2 x\<rfloor> = e \<longleftrightarrow> 2 powr of_int e \<le> x \<and> x < 2 powr of_int (e + 1)"
    using assms(1) by (intro floor_log_eq_powr_iff) simp_all
  then have e: "\<lfloor>log 2 x\<rfloor> = e" using assms(2,3) p0 p1 by simp
  define j where "j = nat (52 - e)"
  have je: "of_int (e - 52) = - real j" using assms(5) by (simp add: j_def)
  have u: "2 powr (of_int (e - 52)) = inverse ((2::real) ^ j)"
    unfolding je by (simp add: powr_minus powr_realpow)
  show ?thesis
    unfolding fl_pos_form [OF assms(1)] e u j_def [symmetric] by (simp add: field_simps)
qed

lemma fl_double_three_tenths:
  "fl (5404319552844595 / 18014398509481984 * 10) = 3"
proof -
  have "fl (5404319552844595 / 18014398509481984 * 10)
          = of_int (rne (5404319552844595 / 18014398509481984 * 10 * 2 ^ nat (52 - 1))) / 2 ^ nat (52 - 1)"
    by (rule fl_eval) simp_all
  also have "\<dots> = 3" by (simp add: rne_def Let_def)
  finally show ?thesis .
qed

section \<open>The casts and the binner\<close>

lemma len32: "LENGTH(32) - Suc 0 = 31"
  by simp

lemma len64: "LENGTH(64) = 64"
  by simp

lemma sint_int_of_double:
  assumes "- 2147483648 \<le> x" "x < 2147483648"
  shows "sint (int_of_double oor x) = x"
proof -
  have "signed_take_bit 31 x = x"
    using assms by (intro signed_take_bit_int_eq_self) simp_all
  then show ?thesis using assms by (simp add: int_of_double_def signed_of_int)
qed

lemma uint_31:
  assumes "unat (n::size_t) < 2 ^ 31"
  shows "uint n < 2147483648"
proof -
  have "unat n < 2147483648" using assms by simp
  then have "int (unat n) < 2147483648" by linarith
  then show ?thesis by simp
qed

lemma sint_int_of_size:
  assumes "unat n < 2 ^ 31"
  shows "sint (int_of_size n) = int (unat n)"
proof -
  have u: "uint n < 2 ^ 31" using uint_31 [OF assms] by simp
  have "- 2147483648 \<le> uint n"
    using uint_ge_0 [of n] by linarith
  then have u0: "- (2 ^ 31) \<le> uint n" by simp
  have "signed_take_bit 31 (uint n) = uint n"
    using u0 u by (rule signed_take_bit_int_eq_self)
  then have "sint (int_of_size n) = uint n"
    unfolding int_of_size_def ucast_eq by (simp only: signed_of_int len32) simp
  then show ?thesis by (simp only: uint_nat)
qed

lemma sint_cint_bounds: "- 2147483648 \<le> sint (b::cint) \<and> sint b < 2147483648"
  using sint_greater_eq [of b] sint_less [of b] by simp

lemma unat_scast_nonneg:
  assumes "0 \<le> sint (b::cint)"
  shows "unat (scast b :: size_t) = nat (sint b)"
proof -
  have "sint b < 2147483648" using sint_cint_bounds [of b] by simp
  then have lt: "sint b < 2 ^ 64" by simp
  have "take_bit 64 (sint b) = sint b"
    using assms lt by (simp add: take_bit_int_eq_self)
  then have "uint (scast b :: size_t) = sint b"
    unfolding scast_eq by (simp only: uint_word_of_int_eq len64)
  then have "nat (uint (scast b :: size_t)) = nat (sint b)" by simp
  then show ?thesis by (simp only: nat_uint_eq)
qed

lemma int_of_double_sint: "int_of_double oor (sint (b::cint)) = b"
  using sint_cint_bounds [of b] by (simp add: int_of_double_def)

lemma in_range_size_iff:
  "in_range_size b n \<longleftrightarrow> 0 \<le> sint b \<and> nat (sint b) < unat n"
  by (auto simp: in_range_size_def word_less_nat_alt unat_scast_nonneg)

lemma in_range_int_iff:
  assumes "unat n < 2 ^ 31"
  shows "in_range_int b n \<longleftrightarrow> 0 \<le> sint b \<and> nat (sint b) < unat n"
  using assms by (auto simp: in_range_int_def sint_int_of_size nat_less_iff)

lemma in_range_agree:
  "unat n < 2 ^ 31 \<Longrightarrow> in_range_int b n = in_range_size b n"
  by (simp add: in_range_size_iff in_range_int_iff)

lemma int_of_double_size:
  assumes "unat n < 2 ^ 31"
  shows "int_of_double oor (int (unat n)) = int_of_size n"
proof -
  have hi: "uint n < 2147483648" using assms by (rule uint_31)
  have lo: "- 2147483648 \<le> uint n" using uint_ge_0 [of n] by linarith
  have "int_of_double oor (uint n) = word_of_int (uint n)"
    using lo hi by (simp add: int_of_double_def)
  then show ?thesis unfolding int_of_size_def ucast_eq by (simp only: uint_nat)
qed

lemma unit_prod_bounds:
  assumes "0 \<le> v" "v \<le> 1" "N < 2 ^ 53"
  shows "0 \<le> fl (v * fl (real N)) \<and> fl (v * fl (real N)) \<le> real N"
proof -
  have f: "fl (real N) = real N" using assms(3) by (rule fl_nat)
  have a: "0 \<le> v * real N" using assms(1) by simp
  have "v * real N \<le> 1 * real N" using assms(2) by (intro mult_right_mono) simp_all
  then have b: "v * real N \<le> real N" by simp
  have "fl (v * real N) \<le> fl (real N)" using a b by (rule fl_mono)
  then have "fl (v * real N) \<le> real N" by (simp only: f)
  moreover have "0 \<le> fl (v * real N)" using a by (rule fl_nonneg)
  ultimately show ?thesis unfolding f by simp
qed

lemma floor_unit_prod:
  assumes "0 \<le> v" "v \<le> 1" "N < 2 ^ 53"
  shows "0 \<le> \<lfloor>fl (v * fl (real N))\<rfloor> \<and> \<lfloor>fl (v * fl (real N))\<rfloor> \<le> int N"
proof -
  have b: "0 \<le> fl (v * fl (real N)) \<and> fl (v * fl (real N)) \<le> real N"
    using assms by (rule unit_prod_bounds)
  then have "\<lfloor>fl (v * fl (real N))\<rfloor> \<le> \<lfloor>real N\<rfloor>" by (intro floor_mono) simp
  then show ?thesis using b by simp
qed

lemma bin_of_floor:
  assumes n0: "0 < unat n" and n31: "unat n < 2 ^ 31" and v: "0 \<le> v" "v \<le> 1"
  shows "sint (bin_of oor v n)
           = (if \<lfloor>dprod v n\<rfloor> = int (unat n) then int (unat n) - 1 else \<lfloor>dprod v n\<rfloor>)
       \<and> 0 \<le> sint (bin_of oor v n) \<and> sint (bin_of oor v n) < int (unat n)"
proof -
  define N where "N = unat n"
  define f where "f = \<lfloor>dprod v n\<rfloor>"
  have n53: "N < 2 ^ 53" unfolding N_def using n31 by (rule less_trans) simp
  have "0 \<le> \<lfloor>fl (v * fl (real N))\<rfloor> \<and> \<lfloor>fl (v * fl (real N))\<rfloor> \<le> int N"
    using v n53 by (rule floor_unit_prod)
  then have fb: "0 \<le> f \<and> f \<le> int N" by (simp only: f_def dprod_def N_def)
  have "N < 2147483648" unfolding N_def using n31 by simp
  then have N31: "int N < 2147483648" by linarith
  have Npos: "0 < int N" unfolding N_def using n0 by linarith
  have f1: "- 2147483648 \<le> f" using fb by linarith
  have f2: "f < 2147483648" using fb N31 by linarith
  have sf: "sint (int_of_double oor f) = f"
    using f1 f2 by (rule sint_int_of_double)
  have sn: "sint (int_of_size n) = int N" unfolding N_def using n31 by (rule sint_int_of_size)
  have goal: "sint (bin_of oor v n) = (if f = int N then int N - 1 else f)
       \<and> 0 \<le> sint (bin_of oor v n) \<and> sint (bin_of oor v n) < int N"
  proof (cases "f = int N")
    case True
    have e: "int_of_double oor f = int_of_size n"
      unfolding True N_def using n31 by (rule int_of_double_size)
    have n1: "unat (n - 1) = N - 1" unfolding N_def using n0 by (simp add: unat_minus_one unat_gt_0)
    have "unat (n - 1) < 2 ^ 31" unfolding n1 N_def using n31 by simp
    then have "sint (int_of_size (n - 1)) = int (unat (n - 1))" by (rule sint_int_of_size)
    then have s: "sint (bin_of oor v n) = int (N - 1)"
      unfolding bin_of_def patch_max_def f_def [symmetric] e n1 by simp
    have "int (N - 1) = int N - 1" using Npos by linarith
    then show ?thesis unfolding s using True Npos by simp
  next
    case False
    have ne: "int_of_double oor f \<noteq> int_of_size n"
    proof
      assume "int_of_double oor f = int_of_size n"
      then have "sint (int_of_double oor f) = sint (int_of_size n)" by simp
      then show False using sf sn False by simp
    qed
    have s: "sint (bin_of oor v n) = f"
      unfolding bin_of_def patch_max_def f_def [symmetric] using ne sf by simp
    show ?thesis unfolding s using False fb by simp
  qed
  show ?thesis using goal unfolding f_def N_def .
qed

lemma floor_fl_bounds:
  assumes x: "0 \<le> x" "x < 2 ^ 52"
  shows "\<lfloor>x\<rfloor> \<le> \<lfloor>fl x\<rfloor> \<and> \<lfloor>fl x\<rfloor> \<le> \<lfloor>x\<rfloor> + 1"
proof -
  define k where "k = nat \<lfloor>x\<rfloor>"
  have k1: "real k \<le> x" using x(1) by (simp add: k_def)
  have k2: "x < real k + 1" using x(1) by (simp add: k_def)
  have fk: "\<lfloor>x\<rfloor> = int k" using x(1) by (simp add: k_def)
  have "real k < 2 ^ 52" using k1 x(2) by linarith
  then have k52: "k < 2 ^ 52" by (metis of_nat_less_iff of_nat_numeral of_nat_power)
  have a: "fl (real k) = real k" by (rule fl_nat) (use k52 in simp)
  have b: "fl (real (Suc k)) = real (Suc k)" by (rule fl_nat) (use k52 in simp)
  have lo: "real k \<le> fl x" using fl_mono [of "real k" x] k1 a by simp
  have hi: "fl x \<le> real (Suc k)" using fl_mono [of x "real (Suc k)"] x(1) k2 b by simp
  have "int k \<le> \<lfloor>fl x\<rfloor>" using lo by (simp add: le_floor_iff)
  moreover have "\<lfloor>fl x\<rfloor> \<le> int k + 1" using hi by (simp add: floor_le_iff) 
  ultimately show ?thesis unfolding fk by simp
qed

lemma floor_dprod_bounds:
  assumes n: "unat n < 2 ^ 31" and v: "0 \<le> v" "v \<le> 1"
  shows "\<lfloor>v * real (unat n)\<rfloor> \<le> \<lfloor>dprod v n\<rfloor> \<and> \<lfloor>dprod v n\<rfloor> \<le> \<lfloor>v * real (unat n)\<rfloor> + 1"
proof -
  define N where "N = unat n"
  have N: "N < 2 ^ 31" using n unfolding N_def .
  have a: "fl (real N) = real N" by (rule fl_nat) (use N in simp)
  have d: "dprod v n = fl (v * real N)" unfolding dprod_def N_def [symmetric] a ..
  have x0: "0 \<le> v * real N" using v(1) by simp
  have "v * real N \<le> 1 * real N" using v(2) by (intro mult_right_mono) simp_all
  moreover have "real N < 2 ^ 31" using N by (metis of_nat_less_iff of_nat_numeral of_nat_power)
  ultimately have x1: "v * real N < 2 ^ 52" by simp
  have "\<lfloor>v * real N\<rfloor> \<le> \<lfloor>fl (v * real N)\<rfloor> \<and> \<lfloor>fl (v * real N)\<rfloor> \<le> \<lfloor>v * real N\<rfloor> + 1"
    using x0 x1 by (rule floor_fl_bounds)
  then show ?thesis unfolding d N_def .
qed

section \<open>What the sliding loop leaves alone\<close>

lemma fold_inv:
  "P s \<Longrightarrow> (\<And>x t. x \<in> set xs \<Longrightarrow> P t \<Longrightarrow> P (f x t)) \<Longrightarrow> P (fold f xs s)"
  by (induction xs arbitrary: s) simp_all

lemma pop_one_frame: "same_outside lo hi s t \<Longrightarrow> same_outside lo hi s (pop_one oor n input_len w j t)"
  by (simp add: same_outside_def pop_one_def Let_def)

lemma push_one_frame:
  "same_outside lo hi s t \<Longrightarrow> same_outside lo hi s (push_one push win_len n input_len w j t)"
  by (simp add: same_outside_def push_one_def Let_def)

lemma store_one_frame:
  assumes "same_outside lo hi s t" "lo \<le> b + w * unat n" "b + w * unat n < hi" "hi \<le> 2 ^ 64"
  shows "same_outside lo hi s (store_one n w b t)"
proof -
  have "b + w * unat n < 2 ^ 64" using assms(3,4) by linarith
  then have i: "unat (of_nat b + of_nat w * n :: size_t) = b + w * unat n" by (rule store_idx)
  show ?thesis
    using assms(1,2,3) unfolding same_outside_def store_one_def i by auto
qed

lemma window_step_frame:
  assumes t: "same_outside (unat n) (nw * unat n) s t"
    and w: "1 \<le> w" "w < nw" and addr: "nw * unat n \<le> 2 ^ 64"
  shows "same_outside (unat n) (nw * unat n) s (window_step oor push win_len n stride input_len w t)"
  unfolding window_step_def
proof (rule fold_inv)
  show "same_outside (unat n) (nw * unat n) s
          (fold (push_one push win_len n input_len w) [0..<unat stride]
            (fold (pop_one oor n input_len w) [0..<unat stride] t))"
  proof (rule fold_inv)
    show "same_outside (unat n) (nw * unat n) s (fold (pop_one oor n input_len w) [0..<unat stride] t)"
      by (rule fold_inv) (simp_all add: t pop_one_frame)
  qed (simp add: push_one_frame)
next
  fix b u assume b: "b \<in> set [0..<unat n]" and u: "same_outside (unat n) (nw * unat n) s u"
  have bn: "b < unat n" using b by simp
  obtain w' where w': "w = Suc w'" using w(1) by (cases w) simp_all
  have lo: "unat n \<le> b + w * unat n" unfolding w' by simp
  have "Suc w \<le> nw" using w(2) by simp
  then have "Suc w * unat n \<le> nw * unat n" by (rule mult_le_mono1)
  then have hi: "b + w * unat n < nw * unat n" using bn by simp
  show "same_outside (unat n) (nw * unat n) s (store_one n w b u)"
    using u lo hi addr by (rule store_one_frame)
qed

section \<open>The cells of the histogram matrix\<close>

lemma fill_bins_at:
  "i < unat input_len \<Longrightarrow>
     fill_bins oor input_norm input_len n z i = double_of_int (bin_of oor (input_norm i) n)"
  by (simp add: fill_bins_def fold_fill)

lemma copy_first_at: "copy_first n buffer hm c = (if c < unat n then buffer c else hm c)"
  by (simp add: copy_first_def fold_fill)

lemma tswHist_cell:
  assumes v: "0 < stride" "stride < win_len" "win_len \<le> input_len"
    and w: "w < unat (num_windows_of input_len win_len stride)"
    and b: "b < unat n"
    and addr: "unat (num_windows_of input_len win_len stride) * unat n \<le> 2 ^ 64"
  shows "out_histMat (tswHist oor input_norm input_len n win_len stride hm0 l0 e0) (b + w * unat n)
     = count_in (hits_push oor (fill_bins oor input_norm input_len n zeros) n b) 0
         (w * unat stride + unat win_len)
       - count_in (hits_pop oor (fill_bins oor input_norm input_len n zeros) n b) 0 (w * unat stride)"
proof -
  let ?nw = "num_windows_of input_len win_len stride"
  let ?inp = "fill_bins oor input_norm input_len n zeros"
  let ?buf = "pushHist oor zeros ?inp win_len n"
  let ?s0 = "\<lparr>histMat = copy_first n ?buf hm0, bufferHist = ?buf, input_int = ?inp,
              strided_windows_loci = fill_loci ?nw stride l0,
              offsets = fill_offsets stride zeros\<rparr>"
  let ?S = "unat stride" and ?W = "unat win_len"
  define m where "m = unat ?nw - 1"
  have nw: "unat ?nw = Suc m" using w by (simp add: m_def)
  have m: "m < unat ?nw" using nw by simp
  have addr': "Suc m * unat n \<le> 2 ^ 64" using addr nw by simp
  have l: "strided_windows_loci ?s0 = fill_loci ?nw stride l0" by simp
  have f: "offsets ?s0 = fill_offsets stride zeros" by simp
  have loop: "fold (window_step oor (pushHist oor) win_len n stride input_len) [1..<Suc m] ?s0
     = ?s0\<lparr>bufferHist := after_pops oor (bufferHist ?s0) (input_int ?s0) n ?S ?W m,
          histMat := (\<lambda>c. if unat n \<le> c \<and> c < Suc m * unat n
             then after_pops oor (bufferHist ?s0) (input_int ?s0) n ?S ?W (c div unat n) (c mod unat n)
             else histMat ?s0 c)\<rparr>"
    using v l f m addr' by (rule sliding_loop_at)
  have out: "out_histMat (tswHist oor input_norm input_len n win_len stride hm0 l0 e0)
           = histMat (fold (window_step oor (pushHist oor) win_len n stride input_len) [1..<Suc m] ?s0)"
    by (simp add: tswHist_def Let_def tswHistSlidingWindow_def sliding_loop_def nw)
  have cell: "out_histMat (tswHist oor input_norm input_len n win_len stride hm0 l0 e0) (b + w * unat n)
     = (if unat n \<le> b + w * unat n \<and> b + w * unat n < Suc m * unat n
        then after_pops oor ?buf ?inp n ?S ?W ((b + w * unat n) div unat n) ((b + w * unat n) mod unat n)
        else copy_first n ?buf hm0 (b + w * unat n))"
    unfolding out loop by simp
  have buf: "\<And>k. ?buf k = count_in (hits_push oor ?inp n k) 0 ?W"
    by (simp add: pushHist_count zeros_def)
  show ?thesis
  proof (cases "w = 0")
    case True
    then show ?thesis unfolding cell using b by (simp add: copy_first_at buf count_in_empty)
  next
    case False
    have wm: "w \<le> m" using w nw by simp
    have "w * unat n + unat n \<le> Suc m * unat n"
      using wm by (metis add.commute mult_Suc mult_le_mono1 Suc_le_mono)
    then have c2: "b + w * unat n < Suc m * unat n" using b by linarith
    obtain w' where w': "w = Suc w'" using False by (cases w) simp_all
    have c1: "unat n \<le> b + w * unat n" unfolding w' by simp
    have dm: "(b + w * unat n) div unat n = w \<and> (b + w * unat n) mod unat n = b"
      using b by simp
    have sp: "count_in (hits_push oor ?inp n b) 0 (w * ?S + ?W)
            = count_in (hits_push oor ?inp n b) 0 ?W + count_in (hits_push oor ?inp n b) ?W (w * ?S + ?W)"
      by (rule count_in_split) simp_all
    have "out_histMat (tswHist oor input_norm input_len n win_len stride hm0 l0 e0) (b + w * unat n)
            = after_pops oor ?buf ?inp n ?S ?W w b"
      unfolding cell using c1 c2 dm by simp
    then show ?thesis
      unfolding sp by (simp add: after_pops_def buf add.commute)
  qed
qed

lemma hits_push_bins:
  assumes i: "i < unat input_len" and b: "b < unat n"
  shows "hits_push oor (fill_bins oor input_norm input_len n z) n b i
           \<longleftrightarrow> sint (bin_of oor (input_norm i) n) = int b"
proof -
  let ?x = "bin_of oor (input_norm i) n"
  have c: "int_of_double oor (fill_bins oor input_norm input_len n z i) = ?x"
    using i by (simp add: fill_bins_at double_of_int_def int_of_double_sint)
  have "hits_push oor (fill_bins oor input_norm input_len n z) n b i
          \<longleftrightarrow> (0 \<le> sint ?x \<and> nat (sint ?x) < unat n) \<and> nat (sint ?x) = b"
    unfolding hits_push_def c in_range_size_iff ..
  also have "\<dots> \<longleftrightarrow> sint ?x = int b" using b by auto
  finally show ?thesis .
qed

lemma hits_agree:
  "unat n < 2 ^ 31 \<Longrightarrow> hits_pop oor inp n k = hits_push oor inp n k"
  by (rule ext) (simp add: hits_pop_def hits_push_def in_range_agree)

text \<open>The worked example.\<close>

lemma nw_example: "unat (num_windows_of 8 4 2) = 3"
  by (simp add: num_windows_of_def)

lemma example_input_unit: "\<forall>i < unat (8::size_t). 0 \<le> example_input i \<and> example_input i \<le> 1"
proof -
  have "0 \<le> example_input i \<and> example_input i \<le> 1" if "i < 8" for i
  proof -
    have "i = 0 \<or> i = 1 \<or> i = 2 \<or> i = 3 \<or> i = 4 \<or> i = 5 \<or> i = 6 \<or> i = 7"
      using that by linarith
    then show ?thesis by (auto simp: example_input_def)
  qed
  then show ?thesis by simp
qed

lemma dprod_exact:
  assumes "unat n < 2 ^ 53" "v * real (unat n) = real k" "k < 2 ^ 53"
  shows "dprod v n = real k"
proof -
  define N where "N = unat n"
  have a: "fl (real N) = real N" using assms(1) unfolding N_def by (rule fl_nat)
  have b: "fl (real k) = real k" using assms(3) by (rule fl_nat)
  have p: "v * real N = real k" using assms(2) unfolding N_def .
  have "dprod v n = fl (v * fl (real N))" unfolding dprod_def N_def ..
  also have "\<dots> = real k" by (simp only: a p b)
  finally show ?thesis .
qed

lemma bin_of_exact:
  assumes "0 < unat n" "unat n < 2 ^ 31" "v * real (unat n) = real k" "k \<le> unat n"
  shows "sint (bin_of oor v n) = (if k = unat n then int k - 1 else int k)"
proof -
  define N where "N = unat n"
  have N: "0 < N" "N < 2 ^ 31" "k \<le> N" using assms(1,2,4) unfolding N_def by simp_all
  have p: "v * real N = real k" using assms(3) unfolding N_def .
  have v: "v = real k / real N" using p N(1) by (simp add: field_simps)
  have v0: "0 \<le> v" unfolding v by simp
  have v1: "v \<le> 1" unfolding v using N by simp
  have n53: "unat n < 2 ^ 53" using assms(2) by simp
  have k53: "k < 2 ^ 53" using N by simp
  have d: "dprod v n = real k" using n53 assms(3) k53 by (rule dprod_exact)
  have f: "\<lfloor>dprod v n\<rfloor> = int k" unfolding d by simp
  have "sint (bin_of oor v n)
          = (if \<lfloor>dprod v n\<rfloor> = int (unat n) then int (unat n) - 1 else \<lfloor>dprod v n\<rfloor>)"
    using bin_of_floor [OF assms(1,2) v0 v1] by blast
  then have "sint (bin_of oor v n) = (if int k = int N then int N - 1 else int k)"
    unfolding f N_def .
  then have "sint (bin_of oor v n) = (if k = N then int k - 1 else int k)"
    by (cases "k = N") simp_all
  then show ?thesis unfolding N_def .
qed

lemma example_bins:
  "sint (bin_of oor 0 4) = 0" "sint (bin_of oor (1 / 4) 4) = 1"
  "sint (bin_of oor (1 / 2) 4) = 2" "sint (bin_of oor (3 / 4) 4) = 3"
  "sint (bin_of oor 1 4) = 3"
  using bin_of_exact [of 4 0 0 oor] bin_of_exact [of 4 "1 / 4" 1 oor]
    bin_of_exact [of 4 "1 / 2" 2 oor] bin_of_exact [of 4 "3 / 4" 3 oor]
    bin_of_exact [of 4 1 4 oor]
  by simp_all

lemma scratch_example: "scratch_hist oor example_input 4 2 4 1 = 2"
  by (simp add: scratch_hist_def example_input_def upt_rec_numeral example_bins)

text \<open>Three zeros in windows of two by one, on \<open>2^31\<close> bins.\<close>

lemma nw_small: "unat (num_windows_of 3 2 1) = 2"
  by (simp add: num_windows_of_def)

lemma zero_bin_big: "bin_of oor 0 2147483648 = 0"
  by (simp add: bin_of_def dprod_def fl_0 patch_max_def int_of_double_def int_of_size_def)

lemma big_bins_zero: "int_of_double oor (fill_bins oor rzeros 3 2147483648 zeros i) = 0"
proof (cases "i < unat (3::size_t)")
  case True
  then show ?thesis
    by (simp add: fill_bins_at rzeros_def zero_bin_big double_of_int_def int_of_double_def)
next
  case False
  then have "fill_bins oor rzeros 3 2147483648 zeros i = 0"
    by (simp add: fill_bins_def fold_fill zeros_def)
  then show ?thesis by (simp add: int_of_double_def)
qed

lemma big_push_any:
  "hits_push oor (fill_bins oor rzeros 3 2147483648 zeros) 2147483648 b = (\<lambda>i. 0 = b)"
  by (rule ext) (simp add: hits_push_def big_bins_zero in_range_size_def)

lemma big_pop_any:
  "hits_pop oor (fill_bins oor rzeros 3 2147483648 zeros) 2147483648 b = (\<lambda>i. False)"
  by (rule ext) (simp add: hits_pop_def big_bins_zero in_range_int_def int_of_size_def)

lemma big_cells:
  assumes "b < unat (2147483648 :: size_t)"
  shows "out_histMat (tswHist oor rzeros 3 2147483648 2 1 zeros zeros rzeros)
           (b + 1 * unat (2147483648 :: size_t)) = (if 0 = b then 3 else 0)"
proof -
  have "out_histMat (tswHist oor rzeros 3 2147483648 2 1 zeros zeros rzeros)
          (b + 1 * unat (2147483648 :: size_t))
     = count_in (hits_push oor (fill_bins oor rzeros 3 2147483648 zeros) 2147483648 b) 0
         (1 * unat (1::size_t) + unat (2::size_t))
       - count_in (hits_pop oor (fill_bins oor rzeros 3 2147483648 zeros) 2147483648 b) 0
           (1 * unat (1::size_t))"
    using assms by (intro tswHist_cell) (simp_all add: nw_small)
  then show ?thesis
    unfolding big_push_any big_pop_any by (simp add: count_in_def)
qed

lemma big_cell:
  "out_histMat (tswHist oor rzeros 3 2147483648 2 1 zeros zeros rzeros)
     (0 + 1 * unat (2147483648 :: size_t)) = 3"
  using big_cells [of 0 oor] by simp

lemma big_scratch:
  "scratch_hist oor rzeros 2147483648 (1 * unat (1::size_t)) (unat (2::size_t)) 0 = 2"
  by (simp add: scratch_hist_def rzeros_def upt_rec_numeral zero_bin_big)

section \<open>Column sums\<close>

lemma sum_indicator:
  assumes "k < n"
  shows "(\<Sum>b\<leftarrow>[0..<n]. if k = b then c else 0) = (c::int)"
proof -
  have "(\<Sum>b\<leftarrow>[0..<n]. if k = b then c else 0) = (\<Sum>b\<in>set [0..<n]. if k = b then c else 0)"
    by (rule sum_list_distinct_conv_sum_set) simp
  also have "\<dots> = c" using assms by simp
  finally show ?thesis .
qed

lemma sum_counts:
  assumes "\<And>i. a \<le> i \<Longrightarrow> i < a + len \<Longrightarrow> key i < n"
  shows "(\<Sum>b\<leftarrow>[0..<n]. count_in (\<lambda>i. key i = b) a (a + len)) = int len"
  using assms
proof (induction len)
  case 0
  then show ?case by (simp add: count_in_empty)
next
  case (Suc len)
  have k: "key (a + len) < n" using Suc.prems [of "a + len"] by simp
  have ih: "(\<Sum>b\<leftarrow>[0..<n]. count_in (\<lambda>i. key i = b) a (a + len)) = int len"
    using Suc.prems by (intro Suc.IH) simp_all
  have "(\<Sum>b\<leftarrow>[0..<n]. count_in (\<lambda>i. key i = b) a (a + Suc len))
      = (\<Sum>b\<leftarrow>[0..<n]. count_in (\<lambda>i. key i = b) a (a + len)
                          + (if key (a + len) = b then 1 else 0))"
    by (simp add: count_in_Suc)
  also have "\<dots> = (\<Sum>b\<leftarrow>[0..<n]. count_in (\<lambda>i. key i = b) a (a + len))
                 + (\<Sum>b\<leftarrow>[0..<n]. if key (a + len) = b then 1 else 0)"
    by (rule sum_list_addf)
  also have "\<dots> = int len + 1" using ih sum_indicator [OF k] by simp
  finally show ?case by simp
qed

lemma no_drop_pushed:
  assumes "no_drop oor input_norm input_len n win_len stride"
    and "i < unat win_len + (unat (num_windows_of input_len win_len stride) - 1) * unat stride"
  shows "in_range_size (bin_of oor (input_norm i) n) n"
  using assms by (simp add: no_drop_def Let_def list_all_iff)

lemma no_drop_popped:
  assumes "no_drop oor input_norm input_len n win_len stride"
    and "i < (unat (num_windows_of input_len win_len stride) - 1) * unat stride"
  shows "in_range_int (bin_of oor (input_norm i) n) n"
  using assms by (simp add: no_drop_def Let_def list_all_iff)

lemma no_drop_cell:
  assumes v: "0 < stride" "stride < win_len" "win_len \<le> input_len"
    and addr: "unat (num_windows_of input_len win_len stride) * unat n \<le> 2 ^ 64"
    and w: "w < unat (num_windows_of input_len win_len stride)"
    and nd: "no_drop oor input_norm input_len n win_len stride"
    and b: "b < unat n"
  shows "out_histMat (tswHist oor input_norm input_len n win_len stride hm0 l0 e0) (b + w * unat n)
           = count_in (\<lambda>i. nat (sint (bin_of oor (input_norm i) n)) = b)
               (w * unat stride) (w * unat stride + unat win_len)"
proof -
  let ?inp = "fill_bins oor input_norm input_len n zeros"
  let ?S = "unat stride" and ?W = "unat win_len"
  let ?nw = "unat (num_windows_of input_len win_len stride)"
  let ?key = "\<lambda>i. nat (sint (bin_of oor (input_norm i) n)) = b"
  have wb: "w * ?S + ?W \<le> unat input_len" using v w by (rule window_bound)
  have ws: "w * ?S \<le> (?nw - 1) * ?S" using w by (intro mult_le_mono1) linarith
  have c: "int_of_double oor (?inp i) = bin_of oor (input_norm i) n" if "i < unat input_len" for i
    using that by (simp add: fill_bins_at double_of_int_def int_of_double_sint)
  have cell: "out_histMat (tswHist oor input_norm input_len n win_len stride hm0 l0 e0) (b + w * unat n)
     = count_in (hits_push oor ?inp n b) 0 (w * ?S + ?W) - count_in (hits_pop oor ?inp n b) 0 (w * ?S)"
    using v w b addr by (rule tswHist_cell)
  have pu: "count_in (hits_push oor ?inp n b) 0 (w * ?S + ?W) = count_in ?key 0 (w * ?S + ?W)"
  proof (rule count_in_cong)
    fix i assume i: "i < w * ?S + ?W"
    then have il: "i < unat input_len" using wb by linarith
    have "i < ?W + (?nw - 1) * ?S" using i ws by linarith
    with nd have "in_range_size (bin_of oor (input_norm i) n) n" by (rule no_drop_pushed)
    then show "hits_push oor ?inp n b i = ?key i"
      unfolding hits_push_def c [OF il] by simp
  qed
  have po: "count_in (hits_pop oor ?inp n b) 0 (w * ?S) = count_in ?key 0 (w * ?S)"
  proof (rule count_in_cong)
    fix i assume i: "i < w * ?S"
    then have il: "i < unat input_len" using wb by linarith
    have "i < (?nw - 1) * ?S" using i ws by linarith
    with nd have "in_range_int (bin_of oor (input_norm i) n) n" by (rule no_drop_popped)
    then show "hits_pop oor ?inp n b i = ?key i"
      unfolding hits_pop_def c [OF il] by simp
  qed
  have sp: "count_in ?key 0 (w * ?S + ?W) = count_in ?key 0 (w * ?S) + count_in ?key (w * ?S) (w * ?S + ?W)"
    by (rule count_in_split) simp_all
  show ?thesis unfolding cell pu po sp by simp
qed

lemma no_drop_column:
  assumes v: "0 < stride" "stride < win_len" "win_len \<le> input_len"
    and addr: "unat (num_windows_of input_len win_len stride) * unat n \<le> 2 ^ 64"
    and w: "w < unat (num_windows_of input_len win_len stride)"
    and nd: "no_drop oor input_norm input_len n win_len stride"
  shows "column_sum (out_histMat (tswHist oor input_norm input_len n win_len stride hm0 l0 e0))
           (unat n) w = int (unat win_len)"
proof -
  let ?S = "unat stride" and ?W = "unat win_len"
  let ?nw = "unat (num_windows_of input_len win_len stride)"
  let ?hm = "out_histMat (tswHist oor input_norm input_len n win_len stride hm0 l0 e0)"
  let ?k = "\<lambda>i. nat (sint (bin_of oor (input_norm i) n))"
  have ws: "w * ?S \<le> (?nw - 1) * ?S" using w by (intro mult_le_mono1) linarith
  have "map (\<lambda>b. ?hm (b + w * unat n)) [0..<unat n]
      = map (\<lambda>b. count_in (\<lambda>i. ?k i = b) (w * ?S) (w * ?S + ?W)) [0..<unat n]"
  proof (rule map_cong [OF refl])
    fix b assume "b \<in> set [0..<unat n]"
    then have b: "b < unat n" by simp
    show "?hm (b + w * unat n) = count_in (\<lambda>i. ?k i = b) (w * ?S) (w * ?S + ?W)"
      using v addr w nd b by (rule no_drop_cell)
  qed
  then have "column_sum ?hm (unat n) w
           = (\<Sum>b\<leftarrow>[0..<unat n]. count_in (\<lambda>i. ?k i = b) (w * ?S) (w * ?S + ?W))"
    by (simp only: column_sum_def)
  also have "\<dots> = int ?W"
  proof (rule sum_counts)
    fix i assume "w * ?S \<le> i" "i < w * ?S + ?W"
    then have "i < ?W + (?nw - 1) * ?S" using ws by linarith
    with nd have "in_range_size (bin_of oor (input_norm i) n) n" by (rule no_drop_pushed)
    then show "?k i < unat n" by (simp add: in_range_size_iff)
  qed
  finally show ?thesis .
qed

lemma run_bound:
  assumes "0 < stride" "stride < win_len" "win_len \<le> input_len"
  shows "unat win_len + (unat (num_windows_of input_len win_len stride) - 1) * unat stride
           \<le> unat input_len"
proof -
  have nw: "unat (num_windows_of input_len win_len stride)
              = (unat input_len - unat win_len) div unat stride + 1"
    using assms by (rule num_windows_unat)
  define q where "q = (unat input_len - unat win_len) div unat stride * unat stride"
  have a: "q \<le> unat input_len - unat win_len" unfolding q_def by simp
  have b: "unat win_len \<le> unat input_len" using assms(3) by (simp add: word_le_nat_alt)
  have "unat win_len + q \<le> unat input_len" using a b by linarith
  then show ?thesis unfolding nw q_def by simp
qed

lemma unit_no_drop:
  assumes v: "0 < stride" "stride < win_len" "win_len \<le> input_len"
    and u: "\<forall>i < unat input_len. 0 \<le> input_norm i \<and> input_norm i \<le> 1"
    and n: "0 < unat n" "unat n < 2 ^ 31"
  shows "no_drop oor input_norm input_len n win_len stride"
proof -
  let ?m = "(unat (num_windows_of input_len win_len stride) - 1) * unat stride"
  have rb: "unat win_len + ?m \<le> unat input_len" using v by (rule run_bound)
  have r: "in_range_size (bin_of oor (input_norm i) n) n \<and> in_range_int (bin_of oor (input_norm i) n) n"
    if "i < unat input_len" for i
  proof -
    have vi: "0 \<le> input_norm i" "input_norm i \<le> 1" using u that by simp_all
    have "0 \<le> sint (bin_of oor (input_norm i) n) \<and> sint (bin_of oor (input_norm i) n) < int (unat n)"
      using bin_of_floor [OF n vi] by blast
    then have "in_range_size (bin_of oor (input_norm i) n) n"
      unfolding in_range_size_iff by linarith
    then show ?thesis using n(2) by (simp add: in_range_agree)
  qed
  have a: "\<forall>i \<in> set [0..<unat win_len + ?m]. in_range_size (bin_of oor (input_norm i) n) n"
    using r rb by auto
  have b: "\<forall>i \<in> set [0..<?m]. in_range_int (bin_of oor (input_norm i) n) n"
    using r rb by auto
  show ?thesis unfolding no_drop_def Let_def list_all_iff using a b by blast
qed

lemma big_column:
  "column_sum (out_histMat (tswHist oor rzeros 3 2147483648 2 1 zeros zeros rzeros))
     (unat (2147483648 :: size_t)) 1 = 3"
proof -
  let ?hm = "out_histMat (tswHist oor rzeros 3 2147483648 2 1 zeros zeros rzeros)"
  let ?n = "unat (2147483648 :: size_t)"
  have "map (\<lambda>b. ?hm (b + 1 * ?n)) [0..<?n] = map (\<lambda>b. if 0 = b then 3 else 0) [0..<?n]"
  proof (rule map_cong [OF refl])
    fix b assume "b \<in> set [0..<?n]"
    then have "b < ?n" by (simp only: set_upt atLeastLessThan_iff)
    then show "?hm (b + 1 * ?n) = (if 0 = b then 3 else 0)" by (rule big_cells)
  qed
  then have "column_sum ?hm ?n 1 = (\<Sum>b\<leftarrow>[0..<?n]. if 0 = b then 3 else 0)"
    by (simp only: column_sum_def)
  also have "\<dots> = 3" by (rule sum_indicator) simp
  finally show ?thesis .
qed

section \<open>Pushing, then popping\<close>

text \<open>
  Within the range of \<^verbatim>\<open>int\<close> the two range tests of \<^verbatim>\<open>tswHist.h\<close> agree and \<^verbatim>\<open>popHist\<close>
  undoes \<^verbatim>\<open>pushHist\<close>; the pair of \<^verbatim>\<open>tswHist_mx.h\<close>, whose two tests are the same, does so
  for every \<open>n_bins\<close>.
\<close>

lemma push_pop_restores_int_range:
  assumes "unat n_bins < 2 ^ 31"
  shows "popHist oor (pushHist oor h inp len n_bins) inp len n_bins = h"
  by (rule ext) (simp add: popHist_count pushHist_count hits_agree [OF assms])

lemma pushHist_mx_count:
  "pushHist_mx oor h inp len n k = h k + count_in (hits_pop oor inp n k) 0 (unat len)"
proof -
  have s: "push_step_mx oor inp n i g j = g j + (if hits_pop oor inp n j i then 1 else 0)" for i g j
    by (auto simp: push_step_mx_def hits_pop_def Let_def)
  have "fold (push_step_mx oor inp n) [0..<m] h k = h k + count_in (hits_pop oor inp n k) 0 m" for m
    by (induction m) (simp_all add: count_in_empty count_in_Suc s)
  then show ?thesis by (simp add: pushHist_mx_def)
qed

lemma push_pop_restores_mx:
  "popHist oor (pushHist_mx oor h inp len n_bins) inp len n_bins = h"
  by (rule ext) (simp add: popHist_count pushHist_mx_count)

section \<open>The gateways\<close>

lemma min_max_step_const: "input i = c \<Longrightarrow> min_max_step input i (c, c) = (c, c)"
  by (simp add: min_max_step_def)

lemma fold_fixed: "(\<And>i. 1 \<le> i \<Longrightarrow> i < m \<Longrightarrow> f i c = c) \<Longrightarrow> fold f [1..<m] c = c"
  by (induction m) auto

lemma min_max_const:
  assumes "\<forall>i < unat input_len. input i = input 0"
  shows "min_max input input_len = (input 0, input 0)"
  unfolding min_max_def
proof (rule fold_fixed)
  fix i assume "1 \<le> i" "i < unat input_len"
  then have "input i = input 0" using assms by blast
  then show "min_max_step input i (input 0, input 0) = (input 0, input 0)"
    by (rule min_max_step_const)
qed

lemma fill_bins_mx_at:
  "i < unat input_len \<Longrightarrow>
     fill_bins_mx P mn mx input input_len n z i
       = double_of_int (bin_of_mx P mn mx (input i) n)"
  by (simp add: fill_bins_mx_def fold_fill)

lemma checks_pass:
  assumes "3 \<le> arg_nrhs a" "arg_nrhs a \<le> 4" "arg_is_real a" "2 < arg_n_bins a"
    and "0 < stride_of a" "stride_of a < arg_win_len a"
  shows "mex_checks a = None"
  using assms by (auto simp: mex_checks_def)

lemma can_alloc_malloc:
  assumes "can_alloc P (unat c)"
  shows "malloc_ok P c \<and> \<not> 2 ^ 61 \<le> unat c"
proof -
  have a: "unat c \<le> max_cells P" "unat c < 2 ^ 61" using assms by (simp_all add: can_alloc_def)
  have "unat c * 8 < 2 ^ 64" using a(2) by simp
  then have "unat (c * 8) = unat c * 8"
    by (simp add: unat_word_ariths)
  then show ?thesis using a by (simp add: malloc_ok_def)
qed

lemma word_succ_nonzero:
  assumes "can_alloc P (unat (n :: size_t))"
  shows "n + 1 \<noteq> 0"
proof
  assume "n + 1 = 0"
  then have "n = - 1" by (simp add: add_eq_0_iff2)
  then have "unat n = 2 ^ 64 - 1"
    by (simp add: unsigned_minus_1_eq_mask mask_eq_exp_minus_1)
  then show False using assms by (simp add: can_alloc_def)
qed

lemma mexFunction_mx_runs:
  assumes c: "mex_checks a = None" and g: "granted P a"
    and l: "arg_win_len a \<le> arg_input_len a"
  shows "mexFunction_mx P junk a = Inr (mx_outputs P junk a)"
proof -
  have s: "stride_of a < arg_win_len a"
    using c by (auto simp: mex_checks_def split: if_splits)
  have n0: "arg_input_len a \<noteq> 0" using s l by (auto simp: word_less_nat_alt word_le_nat_alt)
  have nl: "\<not> arg_input_len a < arg_win_len a" using l by simp
  have g1: "can_alloc P (unat (arg_n_bins a) * unat (num_windows_arg a))"
    "can_alloc P (unat (num_windows_arg a))" "can_alloc P (unat (arg_n_bins a + 1))"
    "can_alloc P (unat (arg_input_len a))" "can_alloc P (unat (arg_n_bins a))"
    "can_alloc P (unat (stride_of a))"
    using g by (simp_all add: granted_def)
  have m1: "malloc_ok P (arg_input_len a)" "\<not> 2 ^ 61 \<le> unat (arg_input_len a)"
    using can_alloc_malloc [OF g1(4)] by simp_all
  have m2: "malloc_ok P (stride_of a)" using can_alloc_malloc [OF g1(6)] by simp
  have e: "arg_n_bins a + 1 \<noteq> 0" using g1(5) by (rule word_succ_nonzero)
  show ?thesis
    unfolding mexFunction_mx_def
    by (simp only: c option.case g1 m1 m2 e n0 nl not_True_eq_False if_False)
qed

lemma mexFunction_c_runs:
  assumes c: "mex_checks a = None" and g: "granted P a"
    and l: "arg_win_len a \<le> arg_input_len a"
  shows "mexFunction_c P a
           = Inr (tswHist (oor_int P) (arg_input a) (arg_input_len a) (arg_n_bins a)
                    (arg_win_len a) (stride_of a) zeros zeros rzeros)"
proof -
  have nl: "\<not> arg_input_len a < arg_win_len a" using l by simp
  have g1: "can_alloc P (unat (arg_n_bins a) * unat (num_windows_arg a))"
    "can_alloc P (unat (num_windows_arg a))" "can_alloc P (unat (arg_n_bins a + 1))"
    "can_alloc P (unat (arg_input_len a))" "can_alloc P (unat (arg_n_bins a))"
    "can_alloc P (unat (stride_of a))"
    using g by (simp_all add: granted_def)
  show ?thesis
    unfolding mexFunction_c_def
    by (simp only: c option.case g1 nl simp_thms if_False)
qed

lemma short_input_c:
  assumes c: "mex_checks a = None" and l: "arg_input_len a < arg_win_len a"
  shows "mexFunction_c P a = Inl OutOfMemory \<or> mexFunction_c P a = Inl Undefined"
  unfolding mexFunction_c_def by (simp only: c option.case l if_True split: if_split) simp

lemma short_input_mx:
  assumes c: "mex_checks a = None" and l: "arg_input_len a < arg_win_len a"
  shows "mexFunction_mx P junk a = Inl OutOfMemory \<or> mexFunction_mx P junk a = Inl Undefined"
  unfolding mexFunction_mx_def by (simp only: c option.case l if_True split: if_split) simp

lemma constant_call_fields:
  "arg_nrhs constant_call = 4" "arg_is_real constant_call" "arg_n_bins constant_call = 4"
  "stride_of constant_call = 1" "arg_win_len constant_call = 2"
  "arg_input_len constant_call = 3" "arg_input constant_call = (\<lambda>_. 1 / 2)"
  by (simp_all add: constant_call_def stride_of_def)

lemma constant_call_granted: "granted example_platform constant_call"
  by (simp add: granted_def can_alloc_def example_platform_def num_windows_arg_def
      num_windows_of_def constant_call_fields)

section \<open>The claims\<close>

subsection \<open>The number of windows\<close>

text \<open>
  C4. For every input length \<open>N\<close>, window length and stride with
  \<open>0 < stride < win_len \<le> N\<close>, the engine's \<^verbatim>\<open>size_t\<close> computation of the number of
  windows is exactly \<open>(N - win_len) div stride + 1\<close>: neither the subtraction nor the
  addition wraps around, whether or not \<open>N - win_len\<close> is a multiple of the stride.
\<close>

theorem num_windows_exact:
  assumes "0 < stride" "stride < win_len" "win_len \<le> input_len"
  shows "unat (num_windows_of input_len win_len stride)
           = (unat input_len - unat win_len) div unat stride + 1"
  using assms by (rule num_windows_unat)

text \<open>Eight values in windows of four by two: three windows; nine values: three as well.\<close>

theorem num_windows_exact_witness:
  "(0::size_t) < 2 \<and> (2::size_t) < 4 \<and> (4::size_t) \<le> 8 \<and> (4::size_t) \<le> 9
   \<and> unat (num_windows_of 8 4 2) = 3 \<and> unat (num_windows_of 9 4 2) = 3"
  using num_windows_exact [of 2 4 8] num_windows_exact [of 2 4 9] by simp

subsection \<open>Departing and arriving positions\<close>

text \<open>
  C3. For every valid configuration (\<open>0 < stride < win_len \<le> N\<close>), with the loci and the
  offsets as \<^verbatim>\<open>tswHist\<close> fills them, at every transition \<open>1 \<le> w < num_windows\<close> and every
  \<open>j < stride\<close>: the departing position \<^verbatim>\<open>base_pop + (size_t)offsets[j]\<close> is exactly
  \<open>(w - 1) * stride + j\<close>, the arriving position \<^verbatim>\<open>base_push + (size_t)offsets[j]\<close> is
  exactly \<open>w * stride + win_len - stride + j\<close>, and both pass the test \<^verbatim>\<open>idx < input_len\<close>,
  so the loop never skips a contribution. The negative offsets are converted to \<^verbatim>\<open>size_t\<close>
  modulo \<open>2^64\<close>.
\<close>

theorem slide_positions_in_bounds:
  assumes "0 < stride" "stride < win_len" "win_len \<le> input_len"
    and "1 \<le> w" "w < unat (num_windows_of input_len win_len stride)" "j < unat stride"
  shows "unat (pop_idx (fill_loci (num_windows_of input_len win_len stride) stride l)
                 (fill_offsets stride f) w j) = (w - 1) * unat stride + j
       \<and> pop_idx (fill_loci (num_windows_of input_len win_len stride) stride l)
                 (fill_offsets stride f) w j < input_len
       \<and> unat (push_idx (fill_loci (num_windows_of input_len win_len stride) stride l)
                 (fill_offsets stride f) win_len w j)
            = w * unat stride + unat win_len - unat stride + j
       \<and> push_idx (fill_loci (num_windows_of input_len win_len stride) stride l)
                 (fill_offsets stride f) win_len w j < input_len"
proof -
  let ?nw = "num_windows_of input_len win_len stride"
  have wb: "w * unat stride + unat win_len \<le> unat input_len"
    using assms(1,2,3,5) by (rule window_bound)
  have sw: "unat stride < unat win_len" using assms(2) by (simp add: word_less_nat_alt)
  have ws: "(w - 1) * unat stride + unat stride = w * unat stride"
    using assms(4) by (rule pred_mult_add)
  have pb: "(w - 1) * unat stride + j < unat input_len"
    using ws wb assms(6) by linarith
  have p: "unat (pop_idx (fill_loci ?nw stride l) (fill_offsets stride f) w j)
             = (w - 1) * unat stride + j"
    using assms(4,5,6) pb by (rule pop_idx_unat)
  have qa: "w * unat stride + (unat win_len - unat stride) + j < unat input_len"
    using wb assms(6) sw by linarith
  have q: "unat (push_idx (fill_loci ?nw stride l) (fill_offsets stride f) win_len w j)
             = w * unat stride + unat win_len - unat stride + j"
    using assms(5,6) sw qa by (rule push_idx_unat)
  have qb: "w * unat stride + unat win_len - unat stride + j < unat input_len"
    using wb sw assms(6) by linarith
  show ?thesis
    unfolding word_less_nat_alt p q using pb qb by simp
qed

text \<open>
  The worked example: at the first transition the second departing position is 1, at the
  second transition the first arriving position is 6.
\<close>

theorem slide_positions_in_bounds_witness:
  "unat (pop_idx (fill_loci (num_windows_of 8 4 2) 2 zeros) (fill_offsets 2 zeros) 1 1) = 1
   \<and> unat (push_idx (fill_loci (num_windows_of 8 4 2) 2 zeros) (fill_offsets 2 zeros) 4 2 0) = 6"
proof -
  have nw: "unat (num_windows_of 8 4 2) = 3" by (simp add: num_windows_of_def)
  have a: "unat (pop_idx (fill_loci (num_windows_of 8 4 2) 2 zeros) (fill_offsets 2 zeros) 1 1)
             = (1 - 1) * unat (2::size_t) + 1"
    using slide_positions_in_bounds [of 2 4 8 1 1 zeros zeros] nw by simp
  have b: "unat (push_idx (fill_loci (num_windows_of 8 4 2) 2 zeros) (fill_offsets 2 zeros) 4 2 0)
             = 2 * unat (2::size_t) + unat (4::size_t) - unat (2::size_t) + 0"
    using slide_positions_in_bounds [of 2 4 8 2 0 zeros zeros] nw by simp
  show ?thesis using a b by simp
qed

subsection \<open>The incremental engine against counting from scratch\<close>

text \<open>
  C1 (as amended). For every configuration with \<open>2 < n_bins \<le> 2^31 - 1\<close> (the bin indices are
  C \<^verbatim>\<open>int\<close>s), \<open>0 < stride < win_len \<le> N\<close> and an output matrix of \<open>n_bins * num_windows\<close>
  cells that is addressable, whatever the input values and whatever the conversion of an
  out-of-range double yields, for every window \<open>w < num_windows\<close> and every bin
  \<open>b < n_bins\<close>: cell \<open>b\<close> of column \<open>w\<close> of the matrix that \<^verbatim>\<open>tswHist\<close> fills (seed from the
  first \<open>win_len\<close> values, then pop and push \<open>stride\<close> values for each transition) is the
  number of positions of \<open>[w * stride, w * stride + win_len)\<close> that the binner of the engine
  (the floor of the double product \<^verbatim>\<open>input_norm[i] * n_bins\<close> converted to \<^verbatim>\<open>int\<close>, with its
  patch) puts in bin \<open>b\<close>, counted from scratch.
\<close>

theorem incremental_equals_scratch:
  assumes "2 < unat n_bins" "unat n_bins < 2 ^ 31"
    and "0 < stride" "stride < win_len" "win_len \<le> input_len"
    and "unat (num_windows_of input_len win_len stride) * unat n_bins \<le> 2 ^ 64"
    and "w < unat (num_windows_of input_len win_len stride)" "b < unat n_bins"
  shows "out_histMat (tswHist oor input_norm input_len n_bins win_len stride hm0 l0 e0)
           (b + w * unat n_bins)
         = scratch_hist oor input_norm n_bins (w * unat stride) (unat win_len) b"
proof -
  let ?inp = "fill_bins oor input_norm input_len n_bins zeros"
  let ?S = "unat stride" and ?W = "unat win_len"
  have cell: "out_histMat (tswHist oor input_norm input_len n_bins win_len stride hm0 l0 e0)
           (b + w * unat n_bins)
     = count_in (hits_push oor ?inp n_bins b) 0 (w * ?S + ?W)
       - count_in (hits_pop oor ?inp n_bins b) 0 (w * ?S)"
    using assms(3,4,5,7,8,6) by (rule tswHist_cell)
  have sp: "count_in (hits_push oor ?inp n_bins b) 0 (w * ?S + ?W)
          = count_in (hits_push oor ?inp n_bins b) 0 (w * ?S)
            + count_in (hits_push oor ?inp n_bins b) (w * ?S) (w * ?S + ?W)"
    by (rule count_in_split) simp_all
  have wb: "w * ?S + ?W \<le> unat input_len"
    using assms(3,4,5,7) by (rule window_bound)
  have "count_in (hits_push oor ?inp n_bins b) (w * ?S) (w * ?S + ?W)
          = count_in (\<lambda>i. sint (bin_of oor (input_norm i) n_bins) = int b) (w * ?S) (w * ?S + ?W)"
  proof (rule count_in_cong)
    fix i assume "w * ?S \<le> i" "i < w * ?S + ?W"
    then have i: "i < unat input_len" using wb by linarith
    show "hits_push oor ?inp n_bins b i = (sint (bin_of oor (input_norm i) n_bins) = int b)"
      using i assms(8) by (rule hits_push_bins)
  qed
  then show ?thesis
    unfolding cell sp hits_agree [OF assms(2)] by (simp add: scratch_hist_def count_in_def)
qed

text \<open>
  The worked example of the specification: eight values, four bins, windows of four by
  two; bin 1 of window 1 counts two values.
\<close>

theorem incremental_equals_scratch_witness:
  "out_histMat (tswHist oor_min example_input 8 4 4 2 zeros zeros rzeros) (1 + 1 * 4) = 2"
proof -
  have "out_histMat (tswHist oor_min example_input 8 4 4 2 zeros zeros rzeros)
           (1 + 1 * unat (4::size_t))
         = scratch_hist oor_min example_input 4 (1 * unat (2::size_t)) (unat (4::size_t)) 1"
    by (rule incremental_equals_scratch) (simp_all add: nw_example)
  then show ?thesis using scratch_example [of oor_min] by simp
qed

text \<open>
  C1 as stated fails beyond the range of \<^verbatim>\<open>int\<close>: with \<open>n_bins = 2^31\<close>, an input of three
  zeros, \<open>win_len = 2\<close> and \<open>stride = 1\<close>, \<^verbatim>\<open>(int)n_bins\<close> is negative, so \<^verbatim>\<open>popHist\<close> never
  decrements while \<^verbatim>\<open>pushHist\<close> (which compares in \<^verbatim>\<open>size_t\<close>) increments: bin 0 of window 1
  holds 3, and counting the window from scratch gives 2.
\<close>

theorem incremental_equals_scratch_counterexample:
  "(2::size_t) < 2147483648 \<and> (0::size_t) < 1 \<and> (1::size_t) < 2 \<and> (2::size_t) \<le> 3
   \<and> 0 \<le> rzeros 0 \<and> rzeros 0 \<le> 1 \<and> 0 \<le> rzeros 1 \<and> rzeros 1 \<le> 1
   \<and> 0 \<le> rzeros 2 \<and> rzeros 2 \<le> 1
   \<and> 1 < unat (num_windows_of 3 2 1)
   \<and> out_histMat (tswHist oor_min rzeros 3 2147483648 2 1 zeros zeros rzeros)
         (0 + 1 * unat (2147483648 :: size_t)) = 3
   \<and> scratch_hist oor_min rzeros 2147483648 (1 * unat (1::size_t)) (unat (2::size_t)) 0 = 2"
  using big_cell [of oor_min] big_scratch [of oor_min] by (simp add: nw_small rzeros_def)

subsection \<open>Column sums\<close>

text \<open>
  C2 (as amended). For every valid configuration (\<open>0 < stride < win_len \<le> N\<close>, an addressable
  output matrix) in whose run no bin index is dropped as out of range (every position that
  the run pushes passes the range test of \<^verbatim>\<open>pushHist\<close>, every position that it pops passes
  that of \<^verbatim>\<open>popHist\<close>), every column of the histogram matrix of \<^verbatim>\<open>tswHist\<close> sums to exactly
  \<open>win_len\<close>; and no bin index is dropped whenever every input value lies in \<open>[0, 1]\<close> and
  \<open>0 < n_bins \<le> 2^31 - 1\<close>.
\<close>

theorem column_sum_win_len:
  assumes "0 < stride" "stride < win_len" "win_len \<le> input_len"
    and "unat (num_windows_of input_len win_len stride) * unat n_bins \<le> 2 ^ 64"
    and "w < unat (num_windows_of input_len win_len stride)"
  shows "(no_drop oor input_norm input_len n_bins win_len stride \<longrightarrow>
           column_sum (out_histMat (tswHist oor input_norm input_len n_bins win_len stride hm0 l0 e0))
             (unat n_bins) w = int (unat win_len))
       \<and> ((\<forall>i < unat input_len. 0 \<le> input_norm i \<and> input_norm i \<le> 1)
            \<and> 0 < unat n_bins \<and> unat n_bins < 2 ^ 31
          \<longrightarrow> no_drop oor input_norm input_len n_bins win_len stride)"
proof (intro conjI impI)
  assume "no_drop oor input_norm input_len n_bins win_len stride"
  with assms
  show "column_sum (out_histMat (tswHist oor input_norm input_len n_bins win_len stride hm0 l0 e0))
             (unat n_bins) w = int (unat win_len)"
    by (rule no_drop_column)
next
  assume a: "(\<forall>i < unat input_len. 0 \<le> input_norm i \<and> input_norm i \<le> 1)
            \<and> 0 < unat n_bins \<and> unat n_bins < 2 ^ 31"
  have u: "\<forall>i < unat input_len. 0 \<le> input_norm i \<and> input_norm i \<le> 1" using a by blast
  have n: "0 < unat n_bins" "unat n_bins < 2 ^ 31" using a by blast+
  show "no_drop oor input_norm input_len n_bins win_len stride"
    using assms(1,2,3) u n by (rule unit_no_drop)
qed

text \<open>The worked example: nothing is dropped, and column 1 sums to 4.\<close>

theorem column_sum_win_len_witness:
  "no_drop oor_min example_input 8 4 4 2
   \<and> column_sum (out_histMat (tswHist oor_min example_input 8 4 4 2 zeros zeros rzeros)) 4 1 = 4"
proof -
  have t: "(no_drop oor_min example_input 8 4 4 2 \<longrightarrow>
           column_sum (out_histMat (tswHist oor_min example_input 8 4 4 2 zeros zeros rzeros))
             (unat (4::size_t)) 1 = int (unat (4::size_t)))
       \<and> ((\<forall>i < unat (8::size_t). 0 \<le> example_input i \<and> example_input i \<le> 1)
            \<and> 0 < unat (4::size_t) \<and> unat (4::size_t) < 2 ^ 31
          \<longrightarrow> no_drop oor_min example_input 8 4 4 2)"
    by (rule column_sum_win_len) (simp_all add: nw_example)
  have nd: "no_drop oor_min example_input 8 4 4 2" using t example_input_unit by simp
  then show ?thesis using t by simp
qed

text \<open>
  Without the bound on \<open>n_bins\<close> the claim fails: on \<open>2^31\<close> bins, three zeros (all in
  \<open>[0, 1]\<close>), \<open>win_len = 2\<close> and \<open>stride = 1\<close>, column 1 sums to 3.
\<close>

theorem column_sum_win_len_counterexample:
  "(2::size_t) < 2147483648 \<and> (0::size_t) < 1 \<and> (1::size_t) < 2 \<and> (2::size_t) \<le> 3
   \<and> 0 \<le> rzeros 0 \<and> rzeros 0 \<le> 1 \<and> 0 \<le> rzeros 1 \<and> rzeros 1 \<le> 1
   \<and> 0 \<le> rzeros 2 \<and> rzeros 2 \<le> 1
   \<and> 1 < unat (num_windows_of 3 2 1)
   \<and> column_sum (out_histMat (tswHist oor_min rzeros 3 2147483648 2 1 zeros zeros rzeros))
         (unat (2147483648 :: size_t)) 1 = 3
   \<and> int (unat (2::size_t)) = 2"
  using big_column [of oor_min] by (simp add: nw_small rzeros_def)

subsection \<open>The binner\<close>

text \<open>
  C8 (as amended). For every \<open>n_bins\<close> with \<open>2 < n_bins \<le> 2^31 - 1\<close> and every value in
  \<open>[0, 1]\<close>, the binner yields the floor of the product \<^verbatim>\<open>value * n_bins\<close> as double
  arithmetic computes it (rounded to the nearest double), except that the index \<open>n_bins\<close>
  becomes \<open>n_bins - 1\<close>; the index lies in \<open>[0, n_bins)\<close>. The floor of the rounded product is
  the floor of the exact product or one more.
\<close>

theorem bin_of_floor_clamp:
  assumes "2 < unat n_bins" "unat n_bins < 2 ^ 31" "0 \<le> v" "v \<le> 1"
  shows "sint (bin_of oor v n_bins)
           = (if \<lfloor>dprod v n_bins\<rfloor> = int (unat n_bins)
              then int (unat n_bins) - 1 else \<lfloor>dprod v n_bins\<rfloor>)
       \<and> 0 \<le> sint (bin_of oor v n_bins) \<and> sint (bin_of oor v n_bins) < int (unat n_bins)
       \<and> \<lfloor>v * real (unat n_bins)\<rfloor> \<le> \<lfloor>dprod v n_bins\<rfloor>
       \<and> \<lfloor>dprod v n_bins\<rfloor> \<le> \<lfloor>v * real (unat n_bins)\<rfloor> + 1"
proof -
  have n0: "0 < unat n_bins" using assms(1) by simp
  have a: "sint (bin_of oor v n_bins)
           = (if \<lfloor>dprod v n_bins\<rfloor> = int (unat n_bins)
              then int (unat n_bins) - 1 else \<lfloor>dprod v n_bins\<rfloor>)
       \<and> 0 \<le> sint (bin_of oor v n_bins) \<and> sint (bin_of oor v n_bins) < int (unat n_bins)"
    using n0 assms(2,3,4) by (rule bin_of_floor)
  have b: "\<lfloor>v * real (unat n_bins)\<rfloor> \<le> \<lfloor>dprod v n_bins\<rfloor>
       \<and> \<lfloor>dprod v n_bins\<rfloor> \<le> \<lfloor>v * real (unat n_bins)\<rfloor> + 1"
    using assms(2,3,4) by (rule floor_dprod_bounds)
  show ?thesis using a b by blast
qed

text \<open>On four bins the value 1 falls in bin 3, and the value 1/2 in bin 2.\<close>

theorem bin_of_floor_clamp_witness:
  "sint (bin_of oor_min 1 4) = 3 \<and> sint (bin_of oor_min (1 / 2) 4) = 2"
proof -
  have d: "dprod 1 4 = real 4" "dprod (1 / 2) 4 = real 2"
    by (rule dprod_exact; simp)+
  show ?thesis
    using bin_of_floor_clamp [of 4 1 oor_min] bin_of_floor_clamp [of 4 "1 / 2" oor_min]
    unfolding d by simp
qed

text \<open>
  C8 as stated fails in two ways. The double nearest to 0.3 is
  \<open>5404319552844595 / 2^54\<close>, a little below 0.3: its exact product with 10 has floor 2, the
  double product is 3.0, and the binner yields 3. And beyond the range of \<^verbatim>\<open>int\<close> the
  comparison \<^verbatim>\<open>bin == (int)n_bins\<close> sees only the low 32 bits of \<open>n_bins\<close>: on \<open>2^32\<close> bins
  the value 0, whose index is 0, is patched to \<^verbatim>\<open>(int)(n_bins - 1)\<close>, which is \<open>-1\<close>.
\<close>

theorem bin_of_floor_clamp_counterexample:
  "(0::real) \<le> 5404319552844595 / 18014398509481984
   \<and> (5404319552844595::real) / 18014398509481984 \<le> 1 \<and> (2::size_t) < 10
   \<and> \<lfloor>(5404319552844595::real) / 18014398509481984 * real (unat (10::size_t))\<rfloor> = 2
   \<and> sint (bin_of oor_min (5404319552844595 / 18014398509481984) 10) = 3
   \<and> (2::size_t) < 4294967296
   \<and> sint (bin_of oor_min 0 4294967296) = - 1"
proof -
  have t: "fl (real (unat (10::size_t))) = 10" using fl_nat [of 10] by simp
  have d: "dprod (5404319552844595 / 18014398509481984) 10 = 3"
    unfolding dprod_def t by (rule fl_double_three_tenths)
  have a: "sint (bin_of oor_min (5404319552844595 / 18014398509481984) 10) = 3"
    unfolding bin_of_def d by (simp add: patch_max_def int_of_double_def int_of_size_def)
  have b: "sint (bin_of oor_min 0 4294967296) = - 1"
    by (simp add: bin_of_def dprod_def fl_0 patch_max_def int_of_double_def int_of_size_def)
  have c: "\<lfloor>(5404319552844595::real) / 18014398509481984 * real (unat (10::size_t))\<rfloor> = 2"
    by (simp add: floor_eq_iff)
  show ?thesis using a b c by simp
qed

subsection \<open>Increment, then decrement\<close>

text \<open>
  C9. Applying \<^verbatim>\<open>pushHist\<close> and then \<^verbatim>\<open>popHist\<close> of \<^verbatim>\<open>tswHist.h\<close> over the same indices
  should give the accumulator back. It does not on \<open>2^31\<close> bins: \<^verbatim>\<open>pushHist\<close> compares
  \<^verbatim>\<open>bin < n_bins\<close> in \<^verbatim>\<open>size_t\<close> and counts bin 0, \<^verbatim>\<open>popHist\<close> compares
  \<^verbatim>\<open>bin < (int)n_bins\<close>, which is negative, and leaves the count at 1.
\<close>

theorem push_pop_not_restored:
  "zeros 0 = 0 \<and> pushHist oor_min zeros zeros 1 2147483648 0 = 1
   \<and> popHist oor_min (pushHist oor_min zeros zeros 1 2147483648) zeros 1 2147483648 0 = 1"
  by (simp add: popHist_def pushHist_def push_step_def pop_step_def zeros_def
      int_of_double_def in_range_size_def in_range_int_def int_of_size_def)

subsection \<open>What the gateways reject\<close>

text \<open>
  C5. Both gateways end with an error, before they create any output and before
  \<^verbatim>\<open>tswHist\<close> or any binning runs, on every call with \<open>n_bins \<le> 2\<close> and on every call with
  \<open>stride \<ge> win_len\<close> (equality included): the error is that of the first failing check,
  \<^verbatim>\<open>badBins\<close> or \<^verbatim>\<open>strideWin\<close> when the argument count and the input type are right.
\<close>

theorem gateway_rejects_bins_and_stride:
  assumes "arg_n_bins a \<le> 2 \<or> arg_win_len a \<le> stride_of a"
  shows "(let e = (if arg_nrhs a < 3 \<or> arg_nrhs a > 4 then InvalidNumInputs
                   else if \<not> arg_is_real a then InputNotReal
                   else if arg_n_bins a \<le> 2 then BadBins else StrideWin)
          in mex_checks a = Some e \<and> mexFunction_c P a = Inl e
             \<and> mexFunction_mx P junk a = Inl e)"
  using assms by (auto simp: mex_checks_def mexFunction_c_def mexFunction_mx_def Let_def)

text \<open>A stride equal to the window length, and two bins.\<close>

theorem gateway_rejects_bins_and_stride_witness:
  "mexFunction_c example_platform (example_call 4 4 4) = Inl StrideWin
   \<and> mexFunction_mx example_platform zeros (example_call 4 4 4) = Inl StrideWin
   \<and> mexFunction_c example_platform (example_call 2 4 2) = Inl BadBins"
  using gateway_rejects_bins_and_stride [of "example_call 4 4 4" example_platform zeros]
    gateway_rejects_bins_and_stride [of "example_call 2 4 2" example_platform zeros]
  by (simp add: example_call_def stride_of_def)

text \<open>
  C6 (as amended). The gateways have no check of the window length against the input
  length, nor of an empty input: a call with \<open>win_len > N\<close> that passes the checks there are
  (three or four arguments, a real double input, \<open>n_bins > 2\<close>, \<open>0 < stride < win_len\<close>) is not
  rejected by any check. With a number of windows computed by wrap-around it ends, on
  every platform, either in the out-of-memory error of an allocation that is not granted
  or in undefined behaviour (the first \<^verbatim>\<open>pushHist\<close> reads \<^verbatim>\<open>input_int\<close> past its end).
\<close>

theorem gateway_no_length_check:
  assumes "3 \<le> arg_nrhs a" "arg_nrhs a \<le> 4" "arg_is_real a" "2 < arg_n_bins a"
    and "0 < stride_of a" "stride_of a < arg_win_len a"
    and "arg_input_len a < arg_win_len a"
  shows "mex_checks a = None
       \<and> (mexFunction_c P a = Inl OutOfMemory \<or> mexFunction_c P a = Inl Undefined)
       \<and> (mexFunction_mx P junk a = Inl OutOfMemory \<or> mexFunction_mx P junk a = Inl Undefined)"
proof -
  have c: "mex_checks a = None" using assms(1-6) by (rule checks_pass)
  show ?thesis
    using c short_input_c [OF c assms(7)] short_input_mx [OF c assms(7)] by blast
qed

text \<open>A window of five on three values asks for \<open>2^64 - 1\<close> windows.\<close>

theorem gateway_no_length_check_witness:
  "mex_checks (short_call 3 5 1) = None
   \<and> mexFunction_c example_platform (short_call 3 5 1) = Inl OutOfMemory
   \<and> mexFunction_mx example_platform zeros (short_call 3 5 1) = Inl OutOfMemory"
proof -
  have t: "mex_checks (short_call 3 5 1) = None
       \<and> (mexFunction_c example_platform (short_call 3 5 1) = Inl OutOfMemory
            \<or> mexFunction_c example_platform (short_call 3 5 1) = Inl Undefined)
       \<and> (mexFunction_mx example_platform zeros (short_call 3 5 1) = Inl OutOfMemory
            \<or> mexFunction_mx example_platform zeros (short_call 3 5 1) = Inl Undefined)"
    by (rule gateway_no_length_check) (simp_all add: short_call_def stride_of_def)
  have c: "mex_checks (short_call 3 5 1) = None" using t by blast
  have nw: "unat (num_windows_arg (short_call 3 5 1)) = 18446744073709551615"
    by (simp add: num_windows_arg_def num_windows_of_def short_call_def stride_of_def
        unsigned_minus_1_eq_mask mask_eq_exp_minus_1)
  have a: "mexFunction_c example_platform (short_call 3 5 1) \<noteq> Inl Undefined"
    by (simp add: mexFunction_c_def c nw can_alloc_def)
  have b: "mexFunction_mx example_platform zeros (short_call 3 5 1) \<noteq> Inl Undefined"
    by (simp add: mexFunction_mx_def c nw can_alloc_def)
  show ?thesis using t a b by blast
qed

text \<open>
  C6 as stated fails: none of these calls is rejected by a check. A window of five on three
  values asks for \<open>2^64 - 1\<close> windows and ends in the out-of-memory error of the first
  allocation; so does a window of two on an empty input. A window of \<open>2^64 - 2048\<close> on three
  values asks for 2052 windows: every allocation is granted, and the first \<^verbatim>\<open>pushHist\<close>
  reads \<^verbatim>\<open>input_int\<close> past its three cells.
\<close>

theorem gateway_no_length_check_counterexample:
  "(3::size_t) < 5 \<and> mex_checks (short_call 3 5 1) = None
   \<and> unat (num_windows_arg (short_call 3 5 1)) = 18446744073709551615
   \<and> mexFunction_c example_platform (short_call 3 5 1) = Inl OutOfMemory
   \<and> (0::size_t) < 2 \<and> mex_checks (short_call 0 2 1) = None
   \<and> mexFunction_c example_platform (short_call 0 2 1) = Inl OutOfMemory
   \<and> mexFunction_mx example_platform zeros (short_call 0 2 1) = Inl OutOfMemory
   \<and> (3::size_t) < 18446744073709549568
   \<and> mex_checks (short_call 3 18446744073709549568 1) = None
   \<and> unat (num_windows_arg (short_call 3 18446744073709549568 1)) = 2052
   \<and> granted example_platform (short_call 3 18446744073709549568 1)
   \<and> mexFunction_c example_platform (short_call 3 18446744073709549568 1) = Inl Undefined
   \<and> mexFunction_mx example_platform zeros (short_call 3 18446744073709549568 1) = Inl Undefined"
proof -
  have f: "arg_input_len (short_call x y z) = x" "arg_win_len (short_call x y z) = y"
    "stride_of (short_call x y z) = z" "arg_n_bins (short_call x y z) = 4"
    "arg_nrhs (short_call x y z) = 4" "arg_is_real (short_call x y z)" for x y z
    by (simp_all add: short_call_def stride_of_def)
  have c: "mex_checks (short_call 3 5 1) = None" "mex_checks (short_call 0 2 1) = None"
    "mex_checks (short_call 3 18446744073709549568 1) = None"
    by (simp_all add: mex_checks_def f word_le_nat_alt)
  have n1: "unat (num_windows_arg (short_call 3 5 1)) = 18446744073709551615"
    by (simp add: num_windows_arg_def num_windows_of_def f
        unsigned_minus_1_eq_mask mask_eq_exp_minus_1)
  have n2: "unat (num_windows_arg (short_call 0 2 1)) = 18446744073709551615"
    by (simp add: num_windows_arg_def num_windows_of_def f
        unsigned_minus_1_eq_mask mask_eq_exp_minus_1)
  have n3: "unat (num_windows_arg (short_call 3 18446744073709549568 1)) = 2052"
    by (simp add: num_windows_arg_def num_windows_of_def f)
  have g: "granted example_platform (short_call 3 18446744073709549568 1)"
    by (simp add: granted_def can_alloc_def example_platform_def n3 f)
  have a1: "mexFunction_c example_platform (short_call 3 5 1) = Inl OutOfMemory"
    by (simp add: mexFunction_c_def c n1 can_alloc_def)
  have a2: "mexFunction_c example_platform (short_call 0 2 1) = Inl OutOfMemory"
    by (simp add: mexFunction_c_def c n2 can_alloc_def)
  have a3: "mexFunction_mx example_platform zeros (short_call 0 2 1) = Inl OutOfMemory"
    by (simp add: mexFunction_mx_def c n2 can_alloc_def)
  have a4: "mexFunction_c example_platform (short_call 3 18446744073709549568 1) = Inl Undefined"
    by (simp add: mexFunction_c_def c n3 can_alloc_def example_platform_def f)
  have a5: "mexFunction_mx example_platform zeros (short_call 3 18446744073709549568 1)
              = Inl Undefined"
    by (simp add: mexFunction_mx_def c n3 can_alloc_def malloc_ok_def example_platform_def f)
  show ?thesis using c n1 n3 g a1 a2 a3 a4 a5 by simp
qed

text \<open>
  C7 (as amended). The range-normalising gateway has no check of \<open>max_val = min_val\<close>: a
  constant input that passes the checks there are is not rejected by any check; when
  moreover every allocation is granted and the window fits the input, the gateway returns
  its outputs. \<open>min_val\<close> and \<open>max_val\<close> are both the common value, the normalisation divides
  by zero, and every bin is what the conversion of the result to \<^verbatim>\<open>int\<close> yields.
\<close>

theorem constant_input_not_rejected:
  assumes "3 \<le> arg_nrhs a" "arg_nrhs a \<le> 4" "arg_is_real a" "2 < arg_n_bins a"
    and "0 < stride_of a" "stride_of a < arg_win_len a"
    and "\<forall>i < unat (arg_input_len a). arg_input a i = arg_input a 0"
  shows "mex_checks a = None
       \<and> (granted P a \<and> arg_win_len a \<le> arg_input_len a
            \<longrightarrow> mexFunction_mx P junk a = Inr (mx_outputs P junk a))
       \<and> min_max (arg_input a) (arg_input_len a) = (arg_input a 0, arg_input a 0)
       \<and> (\<forall>i < unat (arg_input_len a).
             fill_bins_mx P (arg_input a 0) (arg_input a 0) (arg_input a) (arg_input_len a)
               (arg_n_bins a) junk i
             = double_of_int (patch_max (nan_int P) (arg_n_bins a)))"
proof -
  have c: "mex_checks a = None" using assms(1-6) by (rule checks_pass)
  have r: "mexFunction_mx P junk a = Inr (mx_outputs P junk a)"
    if "granted P a \<and> arg_win_len a \<le> arg_input_len a"
  proof -
    have g: "granted P a" and l: "arg_win_len a \<le> arg_input_len a" using that by blast+
    show ?thesis using c g l by (rule mexFunction_mx_runs)
  qed
  have b: "fill_bins_mx P (arg_input a 0) (arg_input a 0) (arg_input a) (arg_input_len a)
               (arg_n_bins a) junk i
             = double_of_int (patch_max (nan_int P) (arg_n_bins a))"
    if "i < unat (arg_input_len a)" for i
    using that by (simp add: fill_bins_mx_at bin_of_mx_def)
  have m: "min_max (arg_input a) (arg_input_len a) = (arg_input a 0, arg_input a 0)"
    using assms(7) by (rule min_max_const)
  show ?thesis using c r b m by blast
qed

text \<open>
  Three times the value 1/2, on a platform that grants the allocations and on which the
  conversion yields \<^verbatim>\<open>INT_MIN\<close>.
\<close>

theorem constant_input_not_rejected_witness:
  "mexFunction_mx example_platform zeros constant_call
     = Inr (mx_outputs example_platform zeros constant_call)
   \<and> min_max (arg_input constant_call) (arg_input_len constant_call) = (1 / 2, 1 / 2)"
proof -
  have "mex_checks constant_call = None
       \<and> (granted example_platform constant_call
            \<and> arg_win_len constant_call \<le> arg_input_len constant_call
            \<longrightarrow> mexFunction_mx example_platform zeros constant_call
                  = Inr (mx_outputs example_platform zeros constant_call))
       \<and> min_max (arg_input constant_call) (arg_input_len constant_call)
           = (arg_input constant_call 0, arg_input constant_call 0)
       \<and> (\<forall>i < unat (arg_input_len constant_call).
             fill_bins_mx example_platform (arg_input constant_call 0) (arg_input constant_call 0)
               (arg_input constant_call) (arg_input_len constant_call)
               (arg_n_bins constant_call) zeros i
             = double_of_int (patch_max (nan_int example_platform) (arg_n_bins constant_call)))"
    by (rule constant_input_not_rejected) (simp_all add: constant_call_fields)
  then show ?thesis using constant_call_granted by (simp add: constant_call_fields)
qed

text \<open>
  C7 as stated fails on that call: it is not rejected, it returns its outputs, computed
  from bins that are all \<^verbatim>\<open>INT_MIN\<close>.
\<close>

theorem constant_input_not_rejected_counterexample:
  "arg_input constant_call 0 = 1 / 2 \<and> arg_input constant_call 1 = 1 / 2
   \<and> arg_input constant_call 2 = 1 / 2 \<and> arg_input_len constant_call = 3
   \<and> min_max (arg_input constant_call) 3 = (1 / 2, 1 / 2)
   \<and> \<not> isl (mexFunction_mx example_platform zeros constant_call)
   \<and> fill_bins_mx example_platform (1 / 2) (1 / 2) (arg_input constant_call) 3 4 zeros 0
       = - 2147483648"
proof -
  have c: "mex_checks constant_call = None"
    by (simp add: mex_checks_def constant_call_fields word_le_nat_alt)
  have l: "arg_win_len constant_call \<le> arg_input_len constant_call"
    by (simp add: constant_call_fields)
  have "mexFunction_mx example_platform zeros constant_call
          = Inr (mx_outputs example_platform zeros constant_call)"
    using c constant_call_granted l by (rule mexFunction_mx_runs)
  then have i: "\<not> isl (mexFunction_mx example_platform zeros constant_call)" by simp
  have "\<forall>i < unat (3::size_t). (\<lambda>_. 1 / 2 :: real) i = (\<lambda>_. 1 / 2) 0" by simp
  then have m: "min_max (\<lambda>_. 1 / 2) 3 = ((\<lambda>_. 1 / 2 :: real) 0, (\<lambda>_. 1 / 2 :: real) 0)"
    by (rule min_max_const)
  have b: "fill_bins_mx example_platform (1 / 2) (1 / 2) (arg_input constant_call) 3 4 zeros 0
       = - 2147483648"
    by (simp add: fill_bins_mx_at bin_of_mx_def example_platform_def patch_max_def
        int_of_size_def double_of_int_def)
  show ?thesis using i m b by (simp add: constant_call_fields)
qed

subsection \<open>The frame of the sliding loop\<close>

text \<open>
  C10. \<^verbatim>\<open>tswHistSlidingWindow\<close>, given a histogram matrix of \<open>n_bins * num_windows\<close> addressable
  cells, leaves the binned input, the window loci and the offsets as they were, and changes
  no cell of the matrix outside columns \<open>1\<close> to \<open>num_windows - 1\<close>: column 0 (the cells below
  \<open>n_bins\<close>) and every cell from \<open>num_windows * n_bins\<close> on are unchanged. The only other
  buffer, the accumulator, is the one it mutates.
\<close>

theorem sliding_window_frame:
  assumes "unat num_windows * unat n_bins \<le> 2 ^ 64"
  shows "input_int (tswHistSlidingWindow oor s num_windows win_len n_bins stride input_len)
           = input_int s
       \<and> strided_windows_loci (tswHistSlidingWindow oor s num_windows win_len n_bins stride input_len)
           = strided_windows_loci s
       \<and> offsets (tswHistSlidingWindow oor s num_windows win_len n_bins stride input_len) = offsets s
       \<and> (\<forall>c. c < unat n_bins \<or> unat num_windows * unat n_bins \<le> c \<longrightarrow>
             histMat (tswHistSlidingWindow oor s num_windows win_len n_bins stride input_len) c
               = histMat s c)"
proof -
  have "same_outside (unat n_bins) (unat num_windows * unat n_bins) s
          (fold (window_step oor (pushHist oor) win_len n_bins stride input_len)
             [1..<unat num_windows] s)"
  proof (rule fold_inv)
    show "same_outside (unat n_bins) (unat num_windows * unat n_bins) s s"
      by (simp add: same_outside_def)
  next
    fix w t assume w: "w \<in> set [1..<unat num_windows]"
      and t: "same_outside (unat n_bins) (unat num_windows * unat n_bins) s t"
    have w1: "1 \<le> w" and w2: "w < unat num_windows" using w by simp_all
    show "same_outside (unat n_bins) (unat num_windows * unat n_bins) s
            (window_step oor (pushHist oor) win_len n_bins stride input_len w t)"
      using t w1 w2 assms by (rule window_step_frame)
  qed
  then show ?thesis
    by (simp add: tswHistSlidingWindow_def sliding_loop_def same_outside_def)
qed

text \<open>Three windows on four bins: the cells 3 (column 0) and 12 (past the matrix) keep their 7.\<close>

theorem sliding_window_frame_witness:
  "input_int (tswHistSlidingWindow oor_min example_bufs 3 4 4 2 8) = (\<lambda>i. int i mod 4)
   \<and> histMat (tswHistSlidingWindow oor_min example_bufs 3 4 4 2 8) 3 = 7
   \<and> histMat (tswHistSlidingWindow oor_min example_bufs 3 4 4 2 8) 12 = 7"
  using sliding_window_frame [of 3 4 oor_min example_bufs 4 2 8]
  by (simp add: example_bufs_def)

end
